theory Spec2Isabelle
  imports Main
begin

section \<open>Characters, numbers and the built-ins the program calls\<close>

text \<open>
  The program handles its ciphertext one character at a time
  (\<^verbatim>\<open>s.encryptedText[s.currentIndex]\<close>), so the cipher core is modelled on single
  characters. A character is a \<^typ>\<open>char\<close>, read as the code unit with the same number
  (U+0000 to U+00FF). Keys and indices are integer Numbers and are modelled as \<^typ>\<open>int\<close>.
  A Number is an IEEE double: a sum or difference of integers is exact as long as it stays
  within \<open>2^53\<close> in magnitude and is rounded beyond, and an integer is written as its
  decimal digits below \<open>10^21\<close> in magnitude and in exponent notation from there. The
  model subtracts exactly and writes digits throughout, so it is the program within these
  bounds only, and the theorems that depend on them state them.

  \<^verbatim>\<open>String.prototype.toLowerCase\<close> and \<^verbatim>\<open>toUpperCase\<close> are modelled on the ASCII
  letters. On the remaining characters of the model the program only observes whether the
  lower-cased character is one of \<^verbatim>\<open>a\<close> to \<^verbatim>\<open>z\<close> (it is not) and whether a character
  matching \<^verbatim>\<open>/[A-Z]/\<close> equals its upper case, so they are left unchanged there.
\<close>

definition UPPERCASE :: "char list" where
  "UPPERCASE = ''ABCDEFGHIJKLMNOPQRSTUVWXYZ''"

definition LOWERCASE :: "char list" where
  "LOWERCASE = ''abcdefghijklmnopqrstuvwxyz''"

definition test_A_Z :: "char \<Rightarrow> bool" where
  \<comment> \<open>\<^verbatim>\<open>/[A-Z]/.test(letter)\<close> on a one-character string\<close>
  "test_A_Z c = (c \<in> set UPPERCASE)"

definition toLowerCase :: "char \<Rightarrow> char" where
  "toLowerCase c = (case map_of (zip UPPERCASE LOWERCASE) c of Some l \<Rightarrow> l | None \<Rightarrow> c)"

definition toUpperCase :: "char \<Rightarrow> char" where
  "toUpperCase c = (case map_of (zip LOWERCASE UPPERCASE) c of Some u \<Rightarrow> u | None \<Rightarrow> c)"

definition jsRem :: "int \<Rightarrow> int \<Rightarrow> int" where
  \<comment> \<open>the \<^verbatim>\<open>%\<close> operator on integers: the result takes the sign of the dividend\<close>
  "jsRem a b = sgn a * (\<bar>a\<bar> mod \<bar>b\<bar>)"

fun indexOfFrom :: "'a list \<Rightarrow> 'a \<Rightarrow> int \<Rightarrow> int" where
  "indexOfFrom [] x i = -1"
| "indexOfFrom (y # ys) x i = (if y = x then i else indexOfFrom ys x (i + 1))"

definition indexOf :: "'a list \<Rightarrow> 'a \<Rightarrow> int" where
  \<comment> \<open>\<^verbatim>\<open>Array.prototype.indexOf\<close>: the first index holding the element, or -1\<close>
  "indexOf xs x = indexOfFrom xs x 0"

definition clamp :: "int \<Rightarrow> int \<Rightarrow> int \<Rightarrow> int" where
  "clamp n mn mx = max mn (min mx n)"

section \<open>Config\<close>

definition ALPHABET :: "char list" where
  "ALPHABET = ''abcdefghijklmnopqrstuvwxyz''"

definition DEFAULT_KEY :: int where
  "DEFAULT_KEY = 3"

definition SPEED_LEVELS :: "int list" where
  \<comment> \<open>script.js\<close>
  "SPEED_LEVELS = [2000, 1500, 1000, 600, 300]"

definition SPEED_LEVELS_part000 :: "int list" where
  "SPEED_LEVELS_part000 = [2000, 1500, 1000, 500, 200]"

section \<open>CipherEngine\<close>

record DecodeResult =
  isSpecial :: bool
  char :: char
  originalIndex :: int
  newIndex :: int
  rawCalculation :: "int option"

definition calculateNewPosition :: "int \<Rightarrow> int \<Rightarrow> int" where
  "calculateNewPosition position key = jsRem (jsRem (position - key) 26 + 26) 26"

text \<open>
  \<^verbatim>\<open>decryptChar\<close> of script.js, with its \<^verbatim>\<open>preserveCase\<close> parameter. The difference
  \<open>index - key\<close> here and in \<open>calculateNewPosition\<close> is the program's for keys up to
  \<open>2^53 - 25\<close> in magnitude, where no rounding occurs.
\<close>

definition decryptChar :: "char \<Rightarrow> int \<Rightarrow> bool \<Rightarrow> DecodeResult" where
  "decryptChar letter key preserveCase =
     (let isUpper = test_A_Z letter;
          lowerLetter = toLowerCase letter;
          index = indexOf ALPHABET lowerLetter
      in if index = -1
         then \<lparr>isSpecial = True, char = letter, originalIndex = -1, newIndex = -1,
               rawCalculation = None\<rparr>
         else
           let rawCalc = index - key;
               newIndex = calculateNewPosition index key;
               newChar = ALPHABET ! nat newIndex;
               newChar = (if preserveCase \<and> isUpper then toUpperCase newChar else newChar)
           in \<lparr>isSpecial = False, char = newChar, originalIndex = index, newIndex = newIndex,
               rawCalculation = Some rawCalc\<rparr>)"

text \<open>\<^verbatim>\<open>decryptChar\<close> of the second source file, which has no \<^verbatim>\<open>preserveCase\<close> parameter.\<close>

definition decryptChar_part000 :: "char \<Rightarrow> int \<Rightarrow> DecodeResult" where
  "decryptChar_part000 letter key =
     (let isUpper = (letter = toUpperCase letter \<and> test_A_Z letter);
          lowerLetter = toLowerCase letter;
          index = indexOf ALPHABET lowerLetter
      in if index = -1
         then \<lparr>isSpecial = True, char = letter, originalIndex = -1, newIndex = -1,
               rawCalculation = None\<rparr>
         else
           let rawCalc = index - key;
               newIndex = calculateNewPosition index key;
               newChar = ALPHABET ! nat newIndex;
               newChar = (if isUpper then toUpperCase newChar else newChar)
           in \<lparr>isSpecial = False, char = newChar, originalIndex = index, newIndex = newIndex,
               rawCalculation = Some rawCalc\<rparr>)"

section \<open>ClassSync: the CSV export\<close>

text \<open>
  \<^verbatim>\<open>exportClassCSV\<close> reads the list of saved attempts of a class from the page's storage;
  the model takes that list as its argument. An attempt's history is a value of the
  runtime that script.js hands to \<^verbatim>\<open>JSON.stringify\<close>, a parameter of the model. The
  result is the text of the file offered for download, or \<open>None\<close> where the function
  reports that there is nothing to export.
\<close>

record 'h Attempt =
  timestamp :: string
  studentId :: string
  encrypted :: string
  key :: int
  finalDecrypted :: string
  history :: 'h

definition DQ :: char where
  "DQ = CHR 0x22"

definition COMMA :: char where
  "COMMA = CHR '',''"

definition NEWLINE :: char where
  "NEWLINE = CHR 0x0A"

definition DIGITS :: "char list" where
  "DIGITS = ''0123456789''"

definition digitChar :: "nat \<Rightarrow> char" where
  "digitChar n = DIGITS ! n"

fun showNat :: "nat \<Rightarrow> string" where
  "showNat n = (if n < 10 then [digitChar n] else showNat (n div 10) @ [digitChar (n mod 10)])"

declare showNat.simps [simp del]

definition showInt :: "int \<Rightarrow> string" where
  \<comment> \<open>an integer Number below \<open>10^21\<close> in magnitude, as a template literal or \<^verbatim>\<open>join\<close> writes it\<close>
  "showInt k = (if k < 0 then CHR ''-'' # showNat (nat (- k)) else showNat (nat k))"

fun join :: "'a list \<Rightarrow> 'a list list \<Rightarrow> 'a list" where
  "join sep [] = []"
| "join sep [x] = x"
| "join sep (x # y # ys) = x @ sep @ join sep (y # ys)"

definition replaceAll :: "char \<Rightarrow> string \<Rightarrow> string \<Rightarrow> string" where
  \<comment> \<open>\<^verbatim>\<open>s.replace(/c/g, r)\<close> for a one-character pattern\<close>
  "replaceAll c r s = concat (map (\<lambda>x. if x = c then r else [x]) s)"

subsection \<open>script.js\<close>

definition csvHeader :: "string list" where
  "csvHeader = [''timestamp'', ''studentId'', ''encrypted'', ''key'', ''finalDecrypted'',
     ''historyJSON'']"

definition csvRow :: "('h \<Rightarrow> string) \<Rightarrow> 'h Attempt \<Rightarrow> string list" where
  "csvRow JSON_stringify r =
     [timestamp r, studentId r, [DQ] @ encrypted r @ [DQ], showInt (Attempt.key r),
      [DQ] @ finalDecrypted r @ [DQ],
      [DQ] @ replaceAll DQ [DQ, DQ] (JSON_stringify (Attempt.history r)) @ [DQ]]"

definition exportClassCSV :: "('h \<Rightarrow> string) \<Rightarrow> 'h Attempt list \<Rightarrow> string option" where
  "exportClassCSV JSON_stringify data =
     (if data = [] then None
      else
        (let rows = [csvHeader] @ map (csvRow JSON_stringify) data
         in Some (join [NEWLINE] (map (join [COMMA]) rows))))"

subsection \<open>The second source file\<close>

definition csvHeader_part000 :: "string list" where
  "csvHeader_part000 = [''Timestamp'', ''Student ID'', ''Encrypted Text'', ''Key'',
     ''Decrypted Result'']"

definition csvRow_part000 :: "'h Attempt \<Rightarrow> string" where
  "csvRow_part000 r =
     (let cleanEnc = replaceAll DQ [DQ, DQ] (encrypted r);
          cleanDec = replaceAll DQ [DQ, DQ] (finalDecrypted r)
      in timestamp r @ [COMMA] @ [DQ] @ studentId r @ [DQ] @ [COMMA] @ [DQ] @ cleanEnc @ [DQ]
           @ [COMMA] @ showInt (Attempt.key r) @ [COMMA] @ [DQ] @ cleanDec @ [DQ])"

definition exportClassCSV_part000 :: "'h Attempt list \<Rightarrow> string option" where
  "exportClassCSV_part000 data =
     (if data = [] then None
      else
        (let rows = [join [COMMA] csvHeader_part000] @ map csvRow_part000 data
         in Some (join [NEWLINE] rows)))"

subsection \<open>Reading a row back\<close>

text \<open>
  What the claim about the export calls standard CSV escaping is stated with the reader of
  a CSV row: fields are separated by commas; a field that starts with a double quote runs
  to its closing double quote, and two double quotes inside it stand for one; any other
  field runs to the next comma and holds no double quote.
\<close>

fun readQuoted :: "string \<Rightarrow> (string \<times> string) option" where
  \<comment> \<open>the rest of a quoted field, after its opening double quote\<close>
  "readQuoted [] = None"
| "readQuoted [c] = (if c = DQ then Some ([], []) else None)"
| "readQuoted (c # d # cs) =
     (if c = DQ then
        (if d = DQ then map_option (\<lambda>(f, rest). (DQ # f, rest)) (readQuoted cs)
         else Some ([], d # cs))
      else map_option (\<lambda>(f, rest). (c # f, rest)) (readQuoted (d # cs)))"

definition readField :: "string \<Rightarrow> (string \<times> string) option" where
  "readField s =
     (case s of
        [] \<Rightarrow> Some ([], [])
      | c # cs \<Rightarrow>
          if c = DQ then readQuoted cs
          else
            (let f = takeWhile (\<lambda>x. x \<noteq> COMMA) s
             in if DQ \<in> set f then None else Some (f, dropWhile (\<lambda>x. x \<noteq> COMMA) s)))"

fun readFields :: "nat \<Rightarrow> string \<Rightarrow> string list option" where
  \<comment> \<open>the first argument bounds the number of fields read\<close>
  "readFields 0 s = None"
| "readFields (Suc n) s =
     (case readField s of
        None \<Rightarrow> None
      | Some (f, rest) \<Rightarrow>
          (case rest of
             [] \<Rightarrow> Some [f]
           | c # cs \<Rightarrow> if c = COMMA then map_option ((#) f) (readFields n cs) else None))"

definition readRow :: "string \<Rightarrow> string list option" where
  \<comment> \<open>a row of \<open>n\<close> characters has at most \<open>n + 1\<close> fields\<close>
  "readRow s = readFields (Suc (length s)) s"

section \<open>LoopEngine\<close>

text \<open>
  The engine's state object (\<^verbatim>\<open>LoopEngine.state\<close>) is the record \<open>LoopState\<close>. What the
  engine reads from or does to the page around it is made explicit in the record \<open>World\<close>:
  the two check boxes and the speed slider it reads (\<open>None\<close> where the element is absent),
  the interval timers the runtime holds (\<^verbatim>\<open>setInterval\<close> adds one under a fresh positive
  identifier, \<^verbatim>\<open>clearInterval\<close> removes it), and the number of calls of
  \<^verbatim>\<open>UIController.showMissionComplete\<close>, the signal that the sequence is complete.
  Rendering (\<^verbatim>\<open>notifyUI\<close>, \<^verbatim>\<open>UIController.reset\<close>, \<^verbatim>\<open>updatePlayButton\<close>) writes to the
  page only and is left out.
\<close>

datatype js_error = TypeError

record Snapshot =
  iteration :: int
  inputChar :: char
  key :: int
  result :: DecodeResult
  accumulated :: string

record Interval =
  ident :: nat
  delay :: int
  captured :: "bool option"

record LoopState =
  encryptedText :: string
  key :: int
  currentIndex :: int
  history :: "Snapshot list"
  isPlaying :: bool
  timer :: "nat option"
  accumulatedText :: string
  waitingForReveal :: bool

record World = LoopState +
  preserveCaseToggle :: "bool option"
  thinkModeToggle :: "bool option"
  speedSlider :: "int option option"
  intervals :: "Interval list"
  nextTimerId :: nat
  missionComplete :: nat

definition charAt :: "string \<Rightarrow> int \<Rightarrow> char option" where
  \<comment> \<open>\<^verbatim>\<open>text[i]\<close>: \<^verbatim>\<open>undefined\<close> (here \<open>None\<close>) outside the string\<close>
  "charAt text i = (if 0 \<le> i \<and> i < int (length text) then Some (text ! nat i) else None)"

definition truthyOr :: "int \<Rightarrow> int \<Rightarrow> int" where
  \<comment> \<open>\<^verbatim>\<open>a || b\<close> on integer Numbers: 0 is falsy\<close>
  "truthyOr a b = (if a = 0 then b else a)"

definition parseInt10 :: "int \<Rightarrow> int" where
  \<comment> \<open>\<^verbatim>\<open>parseInt(key, 10)\<close> on an integer Number below \<open>10^21\<close> in magnitude reads back the
    decimal digits \<^verbatim>\<open>String(key)\<close> writes; from \<open>10^21\<close> the text is in exponent notation,
    which the model leaves out\<close>
  "parseInt10 k = k"

definition clearInterval :: "nat \<Rightarrow> Interval list \<Rightarrow> Interval list" where
  "clearInterval t ivs = filter (\<lambda>iv. ident iv \<noteq> t) ivs"

definition showMissionComplete :: "World \<Rightarrow> World" where
  "showMissionComplete w = w\<lparr>missionComplete := Suc (missionComplete w)\<rparr>"

subsection \<open>script.js\<close>

definition pause :: "World \<Rightarrow> World" where
  \<comment> \<open>\<^verbatim>\<open>if (s.timer)\<close>: \<^verbatim>\<open>null\<close> and 0 are falsy\<close>
  "pause w =
     (let w1 = w\<lparr>isPlaying := False\<rparr>;
          w2 = (case timer w1 of
                  Some t \<Rightarrow>
                    if t \<noteq> 0 then w1\<lparr>intervals := clearInterval t (intervals w1)\<rparr> else w1
                | None \<Rightarrow> w1)
      in w2\<lparr>timer := None\<rparr>)"

text \<open>
  \<^verbatim>\<open>init\<close> replaces the state object. The callback of a timer that is still active keeps
  the replaced object (\<^verbatim>\<open>s\<close> of \<^verbatim>\<open>play\<close>), which nothing writes any more: the timer
  records its \<^verbatim>\<open>waitingForReveal\<close> in \<open>captured\<close>.
\<close>

definition retire :: "bool \<Rightarrow> Interval \<Rightarrow> Interval" where
  "retire b iv = (case captured iv of None \<Rightarrow> iv\<lparr>captured := Some b\<rparr> | Some _ \<Rightarrow> iv)"

definition init :: "string \<Rightarrow> int \<Rightarrow> World \<Rightarrow> World" where
  \<comment> \<open>the text is a string, so \<^verbatim>\<open>text || ""\<close> is the text\<close>
  "init text k w =
     (let w1 = pause w;
          w2 = w1\<lparr>intervals := map (retire (waitingForReveal w1)) (intervals w1)\<rparr>
      in w2\<lparr>encryptedText := text,
            LoopState.key := clamp (truthyOr (parseInt10 k) DEFAULT_KEY) 0 25,
            currentIndex := -1,
            history := [],
            isPlaying := False,
            timer := None,
            accumulatedText := [],
            waitingForReveal := False\<rparr>)"

text \<open>
  Where \<^verbatim>\<open>s.encryptedText[s.currentIndex]\<close> is \<^verbatim>\<open>undefined\<close>, \<^verbatim>\<open>decryptChar\<close> throws a
  \<^verbatim>\<open>TypeError\<close> at \<^verbatim>\<open>letter.toLowerCase()\<close>; the model ends the run there. The invariant
  below shows that no state the engine reaches gets there.
\<close>

definition nextStep :: "World \<Rightarrow> js_error + World" where
  "nextStep w =
     (if currentIndex w \<ge> int (length (encryptedText w)) - 1 then
        (let w1 = pause w
         in Inr (if currentIndex w1 = int (length (encryptedText w1)) - 1
                 then showMissionComplete w1 else w1))
      else
        (let i = currentIndex w + 1
         in case charAt (encryptedText w) i of
              None \<Rightarrow> Inl TypeError
            | Some ch \<Rightarrow>
                (let preserveCase = (case preserveCaseToggle w of Some b \<Rightarrow> b | None \<Rightarrow> True);
                     res = decryptChar ch (LoopState.key w) preserveCase;
                     nextChar = char res;
                     acc = accumulatedText w @ [nextChar];
                     snapshot = \<lparr>iteration = i, inputChar = ch, Snapshot.key = LoopState.key w,
                                 result = res, accumulated = acc\<rparr>;
                     thinkOn = (case thinkModeToggle w of Some b \<Rightarrow> b | None \<Rightarrow> False);
                     w1 = w\<lparr>currentIndex := i, accumulatedText := acc,
                            history := history w @ [snapshot], waitingForReveal := thinkOn\<rparr>
                 in Inr (if waitingForReveal w1 \<and> isPlaying w1 then pause w1 else w1))))"

definition prevStep :: "World \<Rightarrow> World" where
  "prevStep w =
     (let w1 = pause w
      in if currentIndex w1 < 0 then w1
         else
           (let h = butlast (history w1);
                w2 = w1\<lparr>history := h, currentIndex := currentIndex w1 - 1\<rparr>;
                w3 = (if length h > 0 then w2\<lparr>accumulatedText := accumulated (last h)\<rparr>
                      else w2\<lparr>accumulatedText := []\<rparr>)
            in w3\<lparr>waitingForReveal := False\<rparr>))"

definition play :: "World \<Rightarrow> World" where
  "play w =
     (if currentIndex w \<ge> int (length (encryptedText w)) - 1 then w
      else
        (let val = (case speedSlider w of Some v \<Rightarrow> v | None \<Rightarrow> Some 3);
             val = (case val of None \<Rightarrow> 3 | Some v \<Rightarrow> v);
             speedIdx = clamp (val - 1) 0 (int (length SPEED_LEVELS) - 1);
             speed = truthyOr (SPEED_LEVELS ! nat speedIdx) 1000;
             t = nextTimerId w
         in w\<lparr>isPlaying := True, timer := Some t,
               intervals := intervals w @ [\<lparr>ident = t, delay = speed, captured = None\<rparr>],
               nextTimerId := Suc t\<rparr>))"

definition timerCallback :: "Interval \<Rightarrow> World \<Rightarrow> js_error + World" where
  \<comment> \<open>the function \<^verbatim>\<open>play\<close> hands to \<^verbatim>\<open>setInterval\<close>\<close>
  "timerCallback iv w =
     (if (case captured iv of None \<Rightarrow> waitingForReveal w | Some b \<Rightarrow> b) then Inr (pause w)
      else nextStep w)"

definition reset :: "World \<Rightarrow> World" where
  "reset w = init (encryptedText w) (LoopState.key w) w"

definition revealPrediction :: "World \<Rightarrow> World" where
  "revealPrediction w = w\<lparr>waitingForReveal := False\<rparr>"

definition skipPrediction :: "World \<Rightarrow> World" where
  "skipPrediction w = w\<lparr>waitingForReveal := False\<rparr>"

definition spaceKey :: "World \<Rightarrow> World" where
  \<comment> \<open>the key handler: \<^verbatim>\<open>LoopEngine.state.isPlaying ? LoopEngine.pause() : LoopEngine.play()\<close>\<close>
  "spaceKey w = (if isPlaying w then pause w else play w)"

text \<open>
  What can happen to one page, one event after the other (the runtime is single-threaded):
  the calls of the engine's entry points, a tick of an interval timer, and the learner's
  changes to the three inputs the engine reads.
\<close>

datatype event =
    NextStep | PrevStep | Play | Pause | Reset | Init string int
  | Tick nat | RevealPrediction | SkipPrediction | SpaceKey
  | SetPreserveCase bool | SetThinkMode bool | SetSpeedSlider "int option"

fun step :: "event \<Rightarrow> World \<Rightarrow> js_error + World" where
  "step NextStep w = nextStep w"
| "step PrevStep w = Inr (prevStep w)"
| "step Play w = Inr (play w)"
| "step Pause w = Inr (pause w)"
| "step Reset w = Inr (reset w)"
| "step (Init text k) w = Inr (init text k w)"
| "step (Tick t) w =
     (case find (\<lambda>iv. ident iv = t) (intervals w) of
        None \<Rightarrow> Inr w
      | Some iv \<Rightarrow> timerCallback iv w)"
| "step RevealPrediction w = Inr (revealPrediction w)"
| "step SkipPrediction w = Inr (skipPrediction w)"
| "step SpaceKey w = Inr (spaceKey w)"
| "step (SetPreserveCase b) w = Inr (w\<lparr>preserveCaseToggle := map_option (\<lambda>_. b) (preserveCaseToggle w)\<rparr>)"
| "step (SetThinkMode b) w = Inr (w\<lparr>thinkModeToggle := map_option (\<lambda>_. b) (thinkModeToggle w)\<rparr>)"
| "step (SetSpeedSlider v) w = Inr (w\<lparr>speedSlider := map_option (\<lambda>_. v) (speedSlider w)\<rparr>)"

fun run :: "event list \<Rightarrow> World \<Rightarrow> js_error + World" where
  "run [] w = Inr w"
| "run (e # es) w = (case step e w of Inl err \<Rightarrow> Inl err | Inr w' \<Rightarrow> run es w')"

definition page :: "bool option \<Rightarrow> bool option \<Rightarrow> int option option \<Rightarrow> World" where
  \<comment> \<open>the page when the script has loaded: the engine's initial state object, no timer\<close>
  "page pc tm sp =
     \<lparr>encryptedText = [], LoopState.key = DEFAULT_KEY, currentIndex = -1, history = [],
      isPlaying = False, timer = None, accumulatedText = [], waitingForReveal = False,
      preserveCaseToggle = pc, thinkModeToggle = tm, speedSlider = sp,
      intervals = [], nextTimerId = 1, missionComplete = 0\<rparr>"

text \<open>
  A call of \<^verbatim>\<open>play\<close> is gated when the engine is not playing at that moment, as it is
  for a call from the key handler and for a click on the play button, hidden while playing.
\<close>

fun gated :: "event list \<Rightarrow> World \<Rightarrow> bool" where
  "gated [] w = True"
| "gated (e # es) w =
     ((e \<noteq> Play \<or> \<not> isPlaying w) \<and>
      (case step e w of Inl err \<Rightarrow> True | Inr w' \<Rightarrow> gated es w'))"

subsection \<open>The second source file\<close>

text \<open>
  Its state object has the fields of \<open>LoopState\<close> but \<^verbatim>\<open>waitingForReveal\<close>, and its
  engine reads the think-mode check box only; its functions are modelled on the same
  records and leave the fields the file does not have as they are.
\<close>

definition pause_part000 :: "World \<Rightarrow> World" where
  "pause_part000 w =
     (let w1 = w\<lparr>isPlaying := False\<rparr>
      in case timer w1 of
           Some t \<Rightarrow>
             if t \<noteq> 0 then w1\<lparr>intervals := clearInterval t (intervals w1)\<rparr> else w1
         | None \<Rightarrow> w1)"

definition init_part000 :: "string \<Rightarrow> int \<Rightarrow> World \<Rightarrow> World" where
  "init_part000 text k w =
     (let w1 = pause_part000 w
      in w1\<lparr>encryptedText := text,
            LoopState.key := k,
            currentIndex := -1,
            history := [],
            isPlaying := False,
            timer := None,
            accumulatedText := []\<rparr>)"

definition nextStep_part000 :: "World \<Rightarrow> js_error + World" where
  "nextStep_part000 w =
     (if currentIndex w \<ge> int (length (encryptedText w)) - 1 then
        (let w1 = pause_part000 w
         in Inr (if currentIndex w1 = int (length (encryptedText w1)) - 1
                 then showMissionComplete w1 else w1))
      else
        (let i = currentIndex w + 1
         in case charAt (encryptedText w) i of
              None \<Rightarrow> Inl TypeError
            | Some ch \<Rightarrow>
                (let res = decryptChar_part000 ch (LoopState.key w);
                     nextChar = char res;
                     acc = accumulatedText w @ [nextChar];
                     snapshot = \<lparr>iteration = i, inputChar = ch, Snapshot.key = LoopState.key w,
                                 result = res, accumulated = acc\<rparr>;
                     w1 = w\<lparr>currentIndex := i, accumulatedText := acc,
                            history := history w @ [snapshot]\<rparr>;
                     thinkMode = (case thinkModeToggle w1 of Some b \<Rightarrow> b | None \<Rightarrow> False)
                 in Inr (if thinkMode \<and> isPlaying w1 then pause_part000 w1 else w1))))"

definition play_part000 :: "World \<Rightarrow> World" where
  "play_part000 w =
     (if currentIndex w \<ge> int (length (encryptedText w)) - 1 then w
      else
        (let speedIdx = (case speedSlider w of
                           None \<Rightarrow> 2
                         | Some val \<Rightarrow>
                             clamp (case val of None \<Rightarrow> 3 | Some v \<Rightarrow> v) 1
                               (int (length SPEED_LEVELS_part000)) - 1);
             speed = truthyOr (SPEED_LEVELS_part000 ! nat speedIdx) 1000;
             t = nextTimerId w
         in w\<lparr>isPlaying := True, timer := Some t,
               intervals := intervals w @ [\<lparr>ident = t, delay = speed, captured = None\<rparr>],
               nextTimerId := Suc t\<rparr>))"

section \<open>Invariants of the engine\<close>

definition engineInv :: "World \<Rightarrow> bool" where
  "engineInv w \<longleftrightarrow>
     - 1 \<le> currentIndex w \<and> currentIndex w \<le> int (length (encryptedText w)) - 1
     \<and> int (length (history w)) = currentIndex w + 1
     \<and> accumulatedText w = (if history w = [] then [] else accumulated (last (history w)))"

definition timerInv :: "World \<Rightarrow> bool" where
  \<comment> \<open>the only active timer is the one the state records, and only while playing\<close>
  "timerInv w \<longleftrightarrow>
     (isPlaying w \<or> timer w = None)
     \<and> timer w \<noteq> Some 0 \<and> 0 < nextTimerId w
     \<and> map ident (intervals w) = (case timer w of None \<Rightarrow> [] | Some t \<Rightarrow> [t])"

fun nextSteps_part000 :: "nat \<Rightarrow> World \<Rightarrow> js_error + World" where
  \<comment> \<open>\<^verbatim>\<open>nextStep\<close> of the second source file, called \<open>n\<close> times in a row\<close>
  "nextSteps_part000 0 w = Inr w"
| "nextSteps_part000 (Suc n) w =
     (case nextStep_part000 w of Inl err \<Rightarrow> Inl err | Inr w' \<Rightarrow> nextSteps_part000 n w')"

section \<open>Verification of the cipher core\<close>

subsection \<open>The remainder operator and the alphabet\<close>

lemma jsRem_nonneg: "0 \<le> a \<Longrightarrow> jsRem a b = a mod \<bar>b\<bar>"
  by (cases "a = 0") (simp_all add: jsRem_def)

lemma jsRem_26_bounds: "- 26 < jsRem a 26 \<and> jsRem a 26 < 26"
proof (cases "0 \<le> a")
  case True
  then show ?thesis by (simp add: jsRem_nonneg)
next
  case False
  then have "jsRem a 26 = - ((- a) mod 26)" by (simp add: jsRem_def)
  moreover have "0 \<le> (- a) mod 26" "(- a) mod 26 < 26" by simp_all
  ultimately show ?thesis by linarith
qed

lemma jsRem_26_cong: "jsRem a 26 mod 26 = a mod 26"
proof (cases "0 \<le> a")
  case True
  then show ?thesis by (simp add: jsRem_nonneg)
next
  case False
  then have "jsRem a 26 = - ((- a) mod 26)" by (simp add: jsRem_def)
  then show ?thesis by (simp add: mod_minus_eq)
qed

lemma calculateNewPosition_mod: "calculateNewPosition position k = (position - k) mod 26"
proof -
  let ?r = "jsRem (position - k) 26"
  have "0 \<le> ?r + 26" using jsRem_26_bounds [of "position - k"] by linarith
  then have "jsRem (?r + 26) 26 = (?r + 26) mod 26" by (simp add: jsRem_nonneg)
  also have "\<dots> = ?r mod 26" by simp
  also have "\<dots> = (position - k) mod 26" by (rule jsRem_26_cong)
  finally show ?thesis by (simp add: calculateNewPosition_def)
qed

lemma calculateNewPosition_range:
  "0 \<le> calculateNewPosition position k \<and> calculateNewPosition position k \<le> 25"
proof -
  have "0 \<le> (position - k) mod 26" "(position - k) mod 26 < 26" by simp_all
  then show ?thesis by (simp add: calculateNewPosition_mod)
qed

lemma indexOfFrom_notin: "x \<notin> set xs \<Longrightarrow> indexOfFrom xs x i = -1"
  by (induction xs arbitrary: i) auto

lemma indexOfFrom_in:
  "x \<in> set xs \<Longrightarrow> i \<le> indexOfFrom xs x i \<and> indexOfFrom xs x i < i + int (length xs)
     \<and> xs ! nat (indexOfFrom xs x i - i) = x"
proof (induction xs arbitrary: i)
  case Nil
  then show ?case by simp
next
  case (Cons y ys)
  show ?case
  proof (cases "y = x")
    case True
    then show ?thesis by simp
  next
    case False
    with Cons.prems have "x \<in> set ys" by simp
    from Cons.IH [OF this, of "i + 1"]
    have a: "i + 1 \<le> indexOfFrom ys x (i + 1)"
      and b: "indexOfFrom ys x (i + 1) < i + 1 + int (length ys)"
      and c: "ys ! nat (indexOfFrom ys x (i + 1) - (i + 1)) = x" by simp_all
    have "nat (indexOfFrom ys x (i + 1) - i) = Suc (nat (indexOfFrom ys x (i + 1) - (i + 1)))"
      using a by linarith
    with a b c False show ?thesis by simp
  qed
qed

lemma indexOf_notin: "x \<notin> set xs \<Longrightarrow> indexOf xs x = -1"
  by (simp add: indexOf_def indexOfFrom_notin)

lemma indexOf_in:
  "x \<in> set xs \<Longrightarrow>
     0 \<le> indexOf xs x \<and> indexOf xs x < int (length xs) \<and> xs ! nat (indexOf xs x) = x"
  using indexOfFrom_in [of x xs 0] by (simp add: indexOf_def)

lemma indexOfFrom_nth:
  "distinct xs \<Longrightarrow> n < length xs \<Longrightarrow> indexOfFrom xs (xs ! n) i = i + int n"
proof (induction xs arbitrary: i n)
  case Nil
  then show ?case by simp
next
  case (Cons y ys)
  then show ?case by (cases n) auto
qed

lemma indexOf_nth: "distinct xs \<Longrightarrow> n < length xs \<Longrightarrow> indexOf xs (xs ! n) = int n"
  by (simp add: indexOf_def indexOfFrom_nth)

lemma length_ALPHABET: "length ALPHABET = 26"
  by (simp add: ALPHABET_def)

lemma distinct_ALPHABET: "distinct ALPHABET"
  by (simp add: ALPHABET_def)

lemma ALPHABET_letters:
  "list_all (\<lambda>c. toLowerCase c = c \<and> \<not> test_A_Z c \<and> toLowerCase (toUpperCase c) = c
      \<and> test_A_Z (toUpperCase c)) ALPHABET"
  by code_simp

lemma UPPERCASE_letters:
  "list_all (\<lambda>c. toUpperCase c = c \<and> toUpperCase (toLowerCase c) = c
      \<and> toLowerCase c \<in> set ALPHABET) UPPERCASE"
  by code_simp

lemma in_ALPHABET:
  "c \<in> set ALPHABET \<Longrightarrow>
     toLowerCase c = c \<and> \<not> test_A_Z c \<and> toLowerCase (toUpperCase c) = c
       \<and> test_A_Z (toUpperCase c)"
  using ALPHABET_letters by (auto simp: list_all_iff)

lemma test_A_Z_D:
  "test_A_Z c \<Longrightarrow>
     toUpperCase c = c \<and> toUpperCase (toLowerCase c) = c \<and> toLowerCase c \<in> set ALPHABET"
  using UPPERCASE_letters unfolding test_A_Z_def by (auto simp: list_all_iff)

lemma toLowerCase_other: "\<not> test_A_Z c \<Longrightarrow> toLowerCase c = c"
proof -
  assume "\<not> test_A_Z c"
  then have "c \<notin> set (map fst (zip UPPERCASE LOWERCASE))"
    by (simp add: test_A_Z_def UPPERCASE_def LOWERCASE_def)
  then have "map_of (zip UPPERCASE LOWERCASE) c = None"
    by (simp add: map_of_eq_None_iff)
  then show ?thesis by (simp add: toLowerCase_def)
qed

lemma ALPHABET_nth_in: "0 \<le> i \<Longrightarrow> i \<le> 25 \<Longrightarrow> ALPHABET ! nat i \<in> set ALPHABET"
  by (simp add: length_ALPHABET)

subsection \<open>decryptChar\<close>

lemma decryptChar_letter:
  assumes "toLowerCase letter \<in> set ALPHABET"
  shows "decryptChar letter k preserveCase =
     \<lparr>isSpecial = False,
      char = (if preserveCase \<and> test_A_Z letter
              then toUpperCase (ALPHABET ! nat ((indexOf ALPHABET (toLowerCase letter) - k) mod 26))
              else ALPHABET ! nat ((indexOf ALPHABET (toLowerCase letter) - k) mod 26)),
      originalIndex = indexOf ALPHABET (toLowerCase letter),
      newIndex = (indexOf ALPHABET (toLowerCase letter) - k) mod 26,
      rawCalculation = Some (indexOf ALPHABET (toLowerCase letter) - k)\<rparr>"
proof -
  from indexOf_in [OF assms] have "indexOf ALPHABET (toLowerCase letter) \<noteq> -1" by linarith
  then show ?thesis
    by (simp add: decryptChar_def Let_def calculateNewPosition_mod)
qed

lemma decryptChar_special:
  assumes "toLowerCase letter \<notin> set ALPHABET"
  shows "decryptChar letter k preserveCase =
     \<lparr>isSpecial = True, char = letter, originalIndex = -1, newIndex = -1,
      rawCalculation = None\<rparr>"
  using indexOf_notin [OF assms] by (simp add: decryptChar_def Let_def)

lemma decryptChar_part000_eq: "decryptChar_part000 letter k = decryptChar letter k True"
proof -
  have "(letter = toUpperCase letter \<and> test_A_Z letter) = test_A_Z letter"
    using test_A_Z_D [of letter] by auto
  then show ?thesis by (simp add: decryptChar_part000_def decryptChar_def Let_def)
qed


lemma decryptChar_ALPHABET:
  assumes "c \<in> set ALPHABET"
  shows "char (decryptChar c k preserveCase) = ALPHABET ! nat ((indexOf ALPHABET c - k) mod 26)"
  using assms in_ALPHABET [OF assms] by (simp add: decryptChar_letter)

lemma shift_back:
  fixes i k :: int
  assumes "0 \<le> i" "i \<le> 25" "0 \<le> k" "k \<le> 25"
  shows "((i - k) mod 26 - (26 - k) mod 26) mod 26 = i"
proof -
  have "((i - k) mod 26 - (26 - k) mod 26) mod 26 = ((i - k) - (26 - k)) mod 26"
    by (rule mod_diff_eq)
  also have "(i - k) - (26 - k) = i - 26" by simp
  also have "(i - 26) mod 26 = i mod 26" by simp
  also have "\<dots> = i" using assms by simp
  finally show ?thesis .
qed

lemma roundtrip_index:
  assumes "c \<in> set ALPHABET" "0 \<le> k" "k \<le> 25"
  shows "ALPHABET ! nat ((indexOf ALPHABET (ALPHABET ! nat ((indexOf ALPHABET c - k) mod 26))
            - (26 - k) mod 26) mod 26) = c"
proof -
  let ?i = "indexOf ALPHABET c"
  let ?j = "(?i - k) mod 26"
  from indexOf_in [OF assms(1)] have i: "0 \<le> ?i" "?i \<le> 25" "ALPHABET ! nat ?i = c"
    by (simp_all add: length_ALPHABET)
  have j: "0 \<le> ?j" "?j < 26" by simp_all
  then have "nat ?j < length ALPHABET" by (simp add: length_ALPHABET)
  then have "indexOf ALPHABET (ALPHABET ! nat ?j) = int (nat ?j)"
    by (rule indexOf_nth [OF distinct_ALPHABET])
  then have "indexOf ALPHABET (ALPHABET ! nat ?j) = ?j" using j by simp
  moreover have "(?j - (26 - k) mod 26) mod 26 = ?i"
    using i(1,2) assms(2,3) by (rule shift_back)
  ultimately show ?thesis using i(3) by simp
qed

lemma roundtrip_lower:
  assumes "c \<in> set ALPHABET" "0 \<le> k" "k \<le> 25"
  shows "char (decryptChar (char (decryptChar c k p)) ((26 - k) mod 26) q) = c"
proof -
  let ?d = "ALPHABET ! nat ((indexOf ALPHABET c - k) mod 26)"
  have d: "?d \<in> set ALPHABET" by (rule ALPHABET_nth_in) simp_all
  have "char (decryptChar c k p) = ?d" by (rule decryptChar_ALPHABET [OF assms(1)])
  then show ?thesis
    using decryptChar_ALPHABET [OF d, of "(26 - k) mod 26" q] roundtrip_index [OF assms]
    by simp
qed

lemma roundtrip_upper:
  assumes "test_A_Z c" "0 \<le> k" "k \<le> 25"
  shows "char (decryptChar (char (decryptChar c k True)) ((26 - k) mod 26) True) = c"
proof -
  let ?l = "toLowerCase c"
  let ?d = "ALPHABET ! nat ((indexOf ALPHABET ?l - k) mod 26)"
  from test_A_Z_D [OF assms(1)] have l: "?l \<in> set ALPHABET" and ul: "toUpperCase ?l = c"
    by simp_all
  have d: "?d \<in> set ALPHABET" by (rule ALPHABET_nth_in) simp_all
  from in_ALPHABET [OF d] have ud: "toLowerCase (toUpperCase ?d) = ?d"
    "test_A_Z (toUpperCase ?d)" by simp_all
  have "char (decryptChar c k True) = toUpperCase ?d"
    using assms(1) by (simp add: decryptChar_letter [OF l])
  moreover have "char (decryptChar (toUpperCase ?d) ((26 - k) mod 26) True) =
      toUpperCase (ALPHABET ! nat ((indexOf ALPHABET ?d - (26 - k) mod 26) mod 26))"
    using ud d by (simp add: decryptChar_letter)
  ultimately show ?thesis
    using roundtrip_index [OF l assms(2,3)] ul by simp
qed

text \<open>
  C1. For every character whose lower case is a letter of the alphabet and every integer
  key up to \<open>2^53 - 25\<close> in magnitude (so that \<open>originalIndex - key\<close> stays within \<open>2^53\<close>
  and the program computes it without rounding; keys outside 0..25 included), in both
  source files: the result is not special, \<open>originalIndex\<close> is the position
  of the lower-cased letter in the alphabet, \<open>rawCalculation\<close> is \<open>originalIndex - key\<close>,
  \<open>newIndex\<close> is \<^verbatim>\<open>((rawCalculation % 26) + 26) % 26\<close> with the remainder operator of the
  language, which is the mathematical residue modulo 26 and lies in 0..25, and the character
  returned is the letter of the alphabet at \<open>newIndex\<close>, in upper case when case is
  preserved and the input matched \<^verbatim>\<open>/[A-Z]/\<close>.
\<close>
theorem decryptChar_alphabet_letter:
  assumes "toLowerCase letter \<in> set ALPHABET" and "\<bar>k\<bar> \<le> 2 ^ 53 - 25"
  shows "(let r = decryptChar letter k preserveCase
          in \<not> isSpecial r
           \<and> 0 \<le> originalIndex r \<and> originalIndex r \<le> 25
           \<and> ALPHABET ! nat (originalIndex r) = toLowerCase letter
           \<and> \<bar>originalIndex r - k\<bar> \<le> 2 ^ 53
           \<and> rawCalculation r = Some (originalIndex r - k)
           \<and> newIndex r = jsRem (jsRem (originalIndex r - k) 26 + 26) 26
           \<and> newIndex r = (originalIndex r - k) mod 26
           \<and> 0 \<le> newIndex r \<and> newIndex r \<le> 25
           \<and> char r = (if preserveCase \<and> test_A_Z letter
                       then toUpperCase (ALPHABET ! nat (newIndex r))
                       else ALPHABET ! nat (newIndex r)))
       \<and> (let r = decryptChar_part000 letter k
          in \<not> isSpecial r
           \<and> 0 \<le> originalIndex r \<and> originalIndex r \<le> 25
           \<and> ALPHABET ! nat (originalIndex r) = toLowerCase letter
           \<and> \<bar>originalIndex r - k\<bar> \<le> 2 ^ 53
           \<and> rawCalculation r = Some (originalIndex r - k)
           \<and> newIndex r = jsRem (jsRem (originalIndex r - k) 26 + 26) 26
           \<and> newIndex r = (originalIndex r - k) mod 26
           \<and> 0 \<le> newIndex r \<and> newIndex r \<le> 25
           \<and> char r = (if test_A_Z letter
                       then toUpperCase (ALPHABET ! nat (newIndex r))
                       else ALPHABET ! nat (newIndex r)))"
proof -
  let ?i = "indexOf ALPHABET (toLowerCase letter)"
  from indexOf_in [OF assms(1)]
  have i: "0 \<le> ?i" "?i \<le> 25" "ALPHABET ! nat ?i = toLowerCase letter"
    by (simp_all add: length_ALPHABET)
  have e: "\<bar>?i - k\<bar> \<le> 2 ^ 53" using i(1,2) assms(2) by linarith
  have m: "(?i - k) mod 26 = jsRem (jsRem (?i - k) 26 + 26) 26"
    using calculateNewPosition_mod [of ?i k] by (simp add: calculateNewPosition_def)
  have r: "0 \<le> (?i - k) mod 26" "(?i - k) mod 26 \<le> 25"
    using calculateNewPosition_range [of ?i k] by (simp_all add: calculateNewPosition_mod)
  show ?thesis
    unfolding decryptChar_part000_eq decryptChar_letter [OF assms(1)] Let_def
    using i e m r by simp
qed

theorem decryptChar_alphabet_letter_witness:
  "toLowerCase CHR ''K'' \<in> set ALPHABET \<and> \<bar>29 :: int\<bar> \<le> 2 ^ 53 - 25
   \<and> decryptChar CHR ''K'' 29 True =
       \<lparr>isSpecial = False, char = CHR ''H'', originalIndex = 10, newIndex = 7,
        rawCalculation = Some (- 19)\<rparr>
   \<and> newIndex (decryptChar CHR ''K'' 29 True) = (10 - 29) mod 26"
proof -
  have h: "toLowerCase CHR ''K'' \<in> set ALPHABET" by code_simp
  have b: "\<bar>29 :: int\<bar> \<le> 2 ^ 53 - 25" by simp
  have e: "decryptChar CHR ''K'' 29 True =
       \<lparr>isSpecial = False, char = CHR ''H'', originalIndex = 10, newIndex = 7,
        rawCalculation = Some (- 19)\<rparr>" by code_simp
  from decryptChar_alphabet_letter [OF h b, where preserveCase = True]
  have "newIndex (decryptChar CHR ''K'' 29 True)
      = (originalIndex (decryptChar CHR ''K'' 29 True) - 29) mod 26"
    by (simp add: Let_def)
  with h b e show ?thesis by simp
qed

text \<open>
  C7. For every character whose lower case is not a letter of the alphabet and every
  integer key, both source files return the special result: \<open>isSpecial\<close> set, the
  character itself, both indices -1 and no raw calculation. The functions are total, so
  there is no error to raise.
\<close>
theorem decryptChar_special_character:
  assumes "toLowerCase letter \<notin> set ALPHABET"
  shows "decryptChar letter k preserveCase =
           \<lparr>isSpecial = True, char = letter, originalIndex = -1, newIndex = -1,
            rawCalculation = None\<rparr>
       \<and> decryptChar_part000 letter k =
           \<lparr>isSpecial = True, char = letter, originalIndex = -1, newIndex = -1,
            rawCalculation = None\<rparr>"
  unfolding decryptChar_part000_eq using assms by (simp add: decryptChar_special)

theorem decryptChar_special_character_witness:
  "toLowerCase CHR ''!'' \<notin> set ALPHABET
   \<and> decryptChar CHR ''!'' 1000 False =
           \<lparr>isSpecial = True, char = CHR ''!'', originalIndex = -1, newIndex = -1,
            rawCalculation = None\<rparr>"
proof -
  have h: "toLowerCase CHR ''!'' \<notin> set ALPHABET" by code_simp
  from decryptChar_special_character [OF h, of 1000 False] h show ?thesis by simp
qed

text \<open>
  C10. For every character and every integer key, \<^verbatim>\<open>decryptChar\<close> of script.js with
  \<^verbatim>\<open>preserveCase = true\<close> and \<^verbatim>\<open>decryptChar\<close> of the second source file return results
  that agree in each of their five fields.
\<close>
theorem decryptChar_versions_agree:
  "isSpecial (decryptChar letter k True) = isSpecial (decryptChar_part000 letter k)
   \<and> char (decryptChar letter k True) = char (decryptChar_part000 letter k)
   \<and> originalIndex (decryptChar letter k True) = originalIndex (decryptChar_part000 letter k)
   \<and> newIndex (decryptChar letter k True) = newIndex (decryptChar_part000 letter k)
   \<and> rawCalculation (decryptChar letter k True) = rawCalculation (decryptChar_part000 letter k)
   \<and> decryptChar letter k True = decryptChar_part000 letter k"
proof -
  have upper: "(letter = toUpperCase letter \<and> test_A_Z letter) = test_A_Z letter"
  proof (cases "test_A_Z letter")
    case True
    then have "toUpperCase letter = letter" using test_A_Z_D by blast
    with True show ?thesis by simp
  next
    case False
    then show ?thesis by simp
  qed
  have "decryptChar_part000 letter k = decryptChar letter k True"
    by (simp add: decryptChar_part000_def decryptChar_def Let_def upper)
  then show ?thesis by simp
qed

theorem decryptChar_versions_agree_witness:
  "decryptChar CHR ''Q'' (- 40) True = decryptChar_part000 CHR ''Q'' (- 40)
   \<and> char (decryptChar_part000 CHR ''Q'' (- 40)) = CHR ''E''"
proof -
  have "char (decryptChar_part000 CHR ''Q'' (- 40)) = CHR ''E''" by code_simp
  with decryptChar_versions_agree [of "CHR ''Q''" "- 40"] show ?thesis by simp
qed

text \<open>
  C6. For every key \<open>k\<close> in 0..25: decoding a letter of the alphabet with \<open>k\<close> and the
  result with \<open>(26 - k) mod 26\<close> gives the letter back, whatever the two case flags are.
  With case preserved (script.js) and in the second source file the same holds for every
  character whose lower case is a letter of the alphabet, upper case included.
\<close>
theorem decrypt_complementary_key_roundtrip:
  assumes "0 \<le> k" "k \<le> 25"
  shows "(c \<in> set ALPHABET \<longrightarrow>
            char (decryptChar (char (decryptChar c k p)) ((26 - k) mod 26) q) = c)
       \<and> (toLowerCase c \<in> set ALPHABET \<longrightarrow>
            char (decryptChar (char (decryptChar c k True)) ((26 - k) mod 26) True) = c)
       \<and> (toLowerCase c \<in> set ALPHABET \<longrightarrow>
            char (decryptChar_part000 (char (decryptChar_part000 c k)) ((26 - k) mod 26)) = c)"
proof -
  have a: "char (decryptChar (char (decryptChar c k True)) ((26 - k) mod 26) True) = c"
    if "toLowerCase c \<in> set ALPHABET"
  proof (cases "test_A_Z c")
    case True
    then show ?thesis using assms by (rule roundtrip_upper)
  next
    case False
    then have "toLowerCase c = c" by (rule toLowerCase_other)
    with that have "c \<in> set ALPHABET" by simp
    then show ?thesis using assms by (rule roundtrip_lower)
  qed
  show ?thesis
    unfolding decryptChar_part000_eq using a roundtrip_lower [OF _ assms] by blast
qed

theorem decrypt_complementary_key_roundtrip_witness:
  "(0::int) \<le> 3 \<and> (3::int) \<le> 25 \<and> CHR ''k'' \<in> set ALPHABET
   \<and> toLowerCase CHR ''K'' \<in> set ALPHABET
   \<and> char (decryptChar CHR ''k'' 3 False) = CHR ''h''
   \<and> char (decryptChar CHR ''h'' 23 False) = CHR ''k''
   \<and> char (decryptChar CHR ''K'' 3 True) = CHR ''H''
   \<and> char (decryptChar CHR ''H'' 23 True) = CHR ''K''
   \<and> char (decryptChar_part000 CHR ''H'' 23) = CHR ''K''"
proof -
  have m: "CHR ''k'' \<in> set ALPHABET" "toLowerCase CHR ''K'' \<in> set ALPHABET" by code_simp+
  have e: "char (decryptChar CHR ''k'' 3 False) = CHR ''h''"
    "char (decryptChar CHR ''K'' 3 True) = CHR ''H''"
    "char (decryptChar_part000 CHR ''K'' 3) = CHR ''H''" by code_simp+
  from decrypt_complementary_key_roundtrip [of 3 "CHR ''k''" False False] m(1)
  have "char (decryptChar (char (decryptChar CHR ''k'' 3 False)) ((26 - 3) mod 26) False)
      = CHR ''k''" by simp
  moreover from decrypt_complementary_key_roundtrip [of 3 "CHR ''K''" False False] m(2)
  have "char (decryptChar (char (decryptChar CHR ''K'' 3 True)) ((26 - 3) mod 26) True)
      = CHR ''K''"
    "char (decryptChar_part000 (char (decryptChar_part000 CHR ''K'' 3)) ((26 - 3) mod 26))
      = CHR ''K''" by simp_all
  ultimately show ?thesis using e m by simp
qed

section \<open>Verification of the engine\<close>

subsection \<open>The engine keeps its invariant\<close>

lemma pause_fields:
  "encryptedText (pause w) = encryptedText w"
  "LoopState.key (pause w) = LoopState.key w"
  "currentIndex (pause w) = currentIndex w"
  "history (pause w) = history w"
  "accumulatedText (pause w) = accumulatedText w"
  "waitingForReveal (pause w) = waitingForReveal w"
  "missionComplete (pause w) = missionComplete w"
  "preserveCaseToggle (pause w) = preserveCaseToggle w"
  "thinkModeToggle (pause w) = thinkModeToggle w"
  "isPlaying (pause w) = False"
  "timer (pause w) = None"
  "nextTimerId (pause w) = nextTimerId w"
  by (simp_all add: pause_def Let_def split: option.splits)

lemma engineInv_pause: "engineInv (pause w) = engineInv w"
  by (simp add: engineInv_def pause_fields)

lemma engineInv_init: "engineInv (init text k w)"
  by (simp add: engineInv_def init_def Let_def)

lemma nextStep_end:
  assumes "currentIndex w \<ge> int (length (encryptedText w)) - 1"
  shows "nextStep w =
     Inr (if currentIndex w = int (length (encryptedText w)) - 1
          then showMissionComplete (pause w) else pause w)"
  using assms by (simp add: nextStep_def Let_def pause_fields)

lemma charAt_in: "0 \<le> i \<Longrightarrow> i < int (length text) \<Longrightarrow> charAt text i = Some (text ! nat i)"
  by (simp add: charAt_def)

lemma nextStep_advance:
  assumes "- 1 \<le> currentIndex w" "currentIndex w < int (length (encryptedText w)) - 1"
  shows "\<exists>w'. nextStep w = Inr w'
     \<and> currentIndex w' = currentIndex w + 1
     \<and> encryptedText w' = encryptedText w
     \<and> LoopState.key w' = LoopState.key w
     \<and> missionComplete w' = missionComplete w
     \<and> butlast (history w') = history w
     \<and> history w' \<noteq> []
     \<and> length (history w') = Suc (length (history w))
     \<and> accumulated (last (history w')) = accumulatedText w'
     \<and> accumulatedText w' = accumulatedText w @
          [char (decryptChar (encryptedText w ! nat (currentIndex w + 1)) (LoopState.key w)
                  (case preserveCaseToggle w of Some b \<Rightarrow> b | None \<Rightarrow> True))]"
proof -
  have "charAt (encryptedText w) (currentIndex w + 1)
      = Some (encryptedText w ! nat (currentIndex w + 1))"
    using assms by (simp add: charAt_in)
  then show ?thesis
    using assms by (simp add: nextStep_def Let_def pause_fields)
qed

lemma engineInv_nextStep:
  assumes "engineInv w"
  shows "\<exists>w'. nextStep w = Inr w' \<and> engineInv w'"
proof (cases "currentIndex w \<ge> int (length (encryptedText w)) - 1")
  case True
  then show ?thesis
    using assms
    by (simp add: nextStep_end engineInv_def showMissionComplete_def pause_fields)
next
  case False
  with assms have "- 1 \<le> currentIndex w" "currentIndex w < int (length (encryptedText w)) - 1"
    by (simp_all add: engineInv_def)
  from nextStep_advance [OF this] obtain w' where w': "nextStep w = Inr w'"
    "currentIndex w' = currentIndex w + 1" "encryptedText w' = encryptedText w"
    "history w' \<noteq> []" "length (history w') = Suc (length (history w))"
    "accumulated (last (history w')) = accumulatedText w'" by blast
  with assms False have "engineInv w'" by (simp add: engineInv_def)
  with w'(1) show ?thesis by blast
qed

lemma prevStep_start:
  "currentIndex w < 0 \<Longrightarrow> prevStep w = pause w"
  by (simp add: prevStep_def Let_def pause_fields)

lemma prevStep_back:
  assumes "0 \<le> currentIndex w"
  shows "currentIndex (prevStep w) = currentIndex w - 1
     \<and> encryptedText (prevStep w) = encryptedText w
     \<and> LoopState.key (prevStep w) = LoopState.key w
     \<and> missionComplete (prevStep w) = missionComplete w
     \<and> history (prevStep w) = butlast (history w)
     \<and> accumulatedText (prevStep w) =
         (if butlast (history w) = [] then [] else accumulated (last (butlast (history w))))"
  using assms by (simp add: prevStep_def Let_def pause_fields)

lemma engineInv_prevStep:
  assumes "engineInv w"
  shows "engineInv (prevStep w)"
proof (cases "currentIndex w < 0")
  case True
  then show ?thesis using assms by (simp add: prevStep_start engineInv_pause)
next
  case False
  then have nonneg: "0 \<le> currentIndex w" by simp
  from prevStep_back [OF nonneg] nonneg assms show ?thesis
    by (simp add: engineInv_def)
qed

lemma engineInv_play: "engineInv (play w) = engineInv w"
  by (simp add: engineInv_def play_def Let_def)

lemma engineInv_step:
  assumes "engineInv w"
  shows "\<exists>w'. step e w = Inr w' \<and> engineInv w'"
proof (cases e)
  case NextStep
  then show ?thesis using engineInv_nextStep [OF assms] by simp
next
  case PrevStep
  then show ?thesis using engineInv_prevStep [OF assms] by simp
next
  case Play
  then show ?thesis using assms by (simp add: engineInv_play)
next
  case Pause
  then show ?thesis using assms by (simp add: engineInv_pause)
next
  case Reset
  then show ?thesis by (simp add: reset_def engineInv_init)
next
  case (Init tx k)
  then show ?thesis by (simp add: engineInv_init)
next
  case (Tick t)
  show ?thesis
  proof (cases "find (\<lambda>iv. ident iv = t) (intervals w)")
    case None
    with Tick assms show ?thesis by simp
  next
    case (Some iv)
    with Tick have "step e w = timerCallback iv w" by simp
    then show ?thesis
      using assms engineInv_nextStep [OF assms]
      by (simp add: timerCallback_def engineInv_pause)
  qed
next
  case RevealPrediction
  then show ?thesis using assms by (simp add: revealPrediction_def engineInv_def)
next
  case SkipPrediction
  then show ?thesis using assms by (simp add: skipPrediction_def engineInv_def)
next
  case SpaceKey
  then show ?thesis using assms by (simp add: spaceKey_def engineInv_play engineInv_pause)
next
  case (SetPreserveCase b)
  then show ?thesis using assms by (simp add: engineInv_def)
next
  case (SetThinkMode b)
  then show ?thesis using assms by (simp add: engineInv_def)
next
  case (SetSpeedSlider v)
  then show ?thesis using assms by (simp add: engineInv_def)
qed

lemma engineInv_run:
  "engineInv w \<Longrightarrow> \<exists>w'. run es w = Inr w' \<and> engineInv w'"
proof (induction es arbitrary: w)
  case Nil
  then show ?case by simp
next
  case (Cons e es)
  from engineInv_step [OF Cons.prems, of e] obtain w1 where
    w1: "step e w = Inr w1" "engineInv w1" by blast
  from Cons.IH [OF w1(2)] w1(1) show ?case by simp
qed

lemma run_append:
  "run (es @ fs) w = (case run es w of Inl err \<Rightarrow> Inl err | Inr w' \<Rightarrow> run fs w')"
  by (induction es arbitrary: w) (auto split: sum.splits)

lemma forward_steps:
  "engineInv w \<Longrightarrow>
     \<exists>w'. run (replicate n NextStep) w = Inr w' \<and> engineInv w'
       \<and> encryptedText w' = encryptedText w
       \<and> currentIndex w' = min (currentIndex w + int n) (int (length (encryptedText w)) - 1)"
proof (induction n arbitrary: w)
  case 0
  then show ?case by (simp add: engineInv_def)
next
  case (Suc n)
  from engineInv_nextStep [OF Suc.prems] obtain w1 where
    w1: "nextStep w = Inr w1" "engineInv w1" by blast
  have c: "encryptedText w1 = encryptedText w
      \<and> currentIndex w1 = min (currentIndex w + 1) (int (length (encryptedText w)) - 1)"
  proof (cases "currentIndex w \<ge> int (length (encryptedText w)) - 1")
    case True
    with w1(1) Suc.prems show ?thesis
      by (auto simp: nextStep_end showMissionComplete_def pause_fields engineInv_def
          split: if_splits)
  next
    case False
    with Suc.prems have "- 1 \<le> currentIndex w"
      "currentIndex w < int (length (encryptedText w)) - 1"
      by (simp_all add: engineInv_def)
    from nextStep_advance [OF this] w1(1) this(2) show ?thesis by auto
  qed
  from Suc.IH [OF w1(2)] obtain w' where
    w': "run (replicate n NextStep) w1 = Inr w'" "engineInv w'"
    "encryptedText w' = encryptedText w1"
    "currentIndex w' = min (currentIndex w1 + int n) (int (length (encryptedText w1)) - 1)"
    by blast
  from w1(1) w' c show ?case by auto
qed

lemma backward_steps:
  "engineInv w \<Longrightarrow> currentIndex w < int n \<Longrightarrow>
     \<exists>w'. run (replicate n PrevStep) w = Inr w' \<and> currentIndex w' = - 1
       \<and> history w' = [] \<and> accumulatedText w' = []"
proof (induction n arbitrary: w)
  case 0
  then have "currentIndex w = - 1" "int (length (history w)) = currentIndex w + 1"
    by (simp_all add: engineInv_def)
  then have "history w = []" by simp
  with 0 \<open>currentIndex w = - 1\<close> show ?case by (simp add: engineInv_def)
next
  case (Suc n)
  have i: "engineInv (prevStep w)" using Suc.prems(1) by (rule engineInv_prevStep)
  have "currentIndex (prevStep w) < int n"
  proof (cases "currentIndex w < 0")
    case True
    then show ?thesis using Suc.prems by (simp add: prevStep_start pause_fields engineInv_def)
  next
    case False
    then have "0 \<le> currentIndex w" by simp
    from prevStep_back [OF this] Suc.prems(2) show ?thesis by simp
  qed
  from Suc.IH [OF i this] show ?case by simp
qed

lemma prevStep_nextStep:
  assumes "engineInv w" "currentIndex w < int (length (encryptedText w)) - 1"
  shows "\<exists>w'. nextStep w = Inr w' \<and> history (prevStep w') = history w
     \<and> currentIndex (prevStep w') = currentIndex w
     \<and> accumulatedText (prevStep w') = accumulatedText w"
proof -
  from assms have "- 1 \<le> currentIndex w" by (simp add: engineInv_def)
  from nextStep_advance [OF this assms(2)] obtain w' where
    w': "nextStep w = Inr w'" "currentIndex w' = currentIndex w + 1"
    "butlast (history w') = history w" by blast
  from w'(2) \<open>- 1 \<le> currentIndex w\<close> have "0 \<le> currentIndex w'" by simp
  from prevStep_back [OF this] w' assms(1) show ?thesis by (simp add: engineInv_def)
qed


subsection \<open>Timers\<close>

lemma clearInterval_only: "map ident ivs = [t] \<Longrightarrow> clearInterval t ivs = []"
  by (cases ivs) (auto simp: clearInterval_def)

lemma pause_intervals: "timerInv w \<Longrightarrow> intervals (pause w) = []"
  by (auto simp: timerInv_def pause_def Let_def clearInterval_only split: option.splits)

lemma timerInv_pause: "timerInv w \<Longrightarrow> timerInv (pause w)"
  using pause_intervals [of w] by (simp add: timerInv_def pause_fields)

lemma timerInv_init: "timerInv w \<Longrightarrow> timerInv (init tx k w) \<and> intervals (init tx k w) = []"
  using pause_intervals [of w] by (simp add: timerInv_def init_def Let_def pause_fields)

lemma timerInv_showMissionComplete: "timerInv (showMissionComplete w) = timerInv w"
  by (simp add: timerInv_def showMissionComplete_def)

lemma pause_intervals_eq:
  "intervals (pause w) =
     (case timer w of
        Some t \<Rightarrow> if t \<noteq> 0 then clearInterval t (intervals w) else intervals w
      | None \<Rightarrow> intervals w)"
  by (simp add: pause_def Let_def split: option.splits)

lemma timerInv_cong:
  "isPlaying w' = isPlaying w \<Longrightarrow> timer w' = timer w \<Longrightarrow> intervals w' = intervals w \<Longrightarrow>
     nextTimerId w' = nextTimerId w \<Longrightarrow> timerInv w' = timerInv w"
  by (simp add: timerInv_def)

lemma nextStep_timer_fields:
  assumes "nextStep w = Inr w'"
  shows "(isPlaying w' = isPlaying w \<and> timer w' = timer w \<and> intervals w' = intervals w
          \<and> nextTimerId w' = nextTimerId w)
     \<or> (isPlaying w' = isPlaying (pause w) \<and> timer w' = timer (pause w)
          \<and> intervals w' = intervals (pause w) \<and> nextTimerId w' = nextTimerId (pause w))"
proof (cases "currentIndex w \<ge> int (length (encryptedText w)) - 1")
  case True
  with assms show ?thesis
    by (auto simp: nextStep_end showMissionComplete_def split: if_splits)
next
  case False
  with assms show ?thesis
    by (auto simp: nextStep_def Let_def pause_fields pause_intervals_eq
        split: option.splits if_splits)
qed

lemma timerInv_nextStep:
  assumes "timerInv w" "nextStep w = Inr w'"
  shows "timerInv w'"
  using nextStep_timer_fields [OF assms(2)] timerInv_pause [OF assms(1)] assms(1)
    timerInv_cong [of w' w] timerInv_cong [of w' "pause w"] by blast

lemma timerInv_prevStep:
  assumes "timerInv w"
  shows "timerInv (prevStep w) \<and> intervals (prevStep w) = []"
proof -
  have "timerInv (pause w)" "intervals (pause w) = []"
    using assms by (simp_all add: timerInv_pause pause_intervals)
  then show ?thesis
    by (simp add: prevStep_def Let_def timerInv_def)
qed

lemma timerInv_play:
  assumes "timerInv w" "\<not> isPlaying w"
  shows "timerInv (play w)"
  using assms by (simp add: timerInv_def play_def Let_def)

lemma timerInv_step:
  assumes "timerInv w" "e \<noteq> Play \<or> \<not> isPlaying w" "step e w = Inr w'"
  shows "timerInv w'"
proof (cases e)
  case NextStep
  with assms show ?thesis by (simp add: timerInv_nextStep)
next
  case PrevStep
  with assms show ?thesis using timerInv_prevStep [of w] by auto
next
  case Play
  with assms show ?thesis using timerInv_play [of w] by auto
next
  case Pause
  with assms show ?thesis using timerInv_pause [of w] by auto
next
  case Reset
  with assms show ?thesis using timerInv_init [of w] by (auto simp: reset_def)
next
  case (Init tx k)
  with assms show ?thesis using timerInv_init [of w] by auto
next
  case (Tick t)
  show ?thesis
  proof (cases "find (\<lambda>iv. ident iv = t) (intervals w)")
    case None
    with Tick assms show ?thesis by simp
  next
    case (Some iv)
    with Tick assms(3) have "timerCallback iv w = Inr w'" by simp
    then have "w' = pause w \<or> nextStep w = Inr w'"
      by (auto simp: timerCallback_def split: if_splits)
    then show ?thesis
      using timerInv_pause [OF assms(1)] timerInv_nextStep [OF assms(1)] by auto
  qed
next
  case RevealPrediction
  with assms show ?thesis by (auto simp: revealPrediction_def timerInv_def)
next
  case SkipPrediction
  with assms show ?thesis by (auto simp: skipPrediction_def timerInv_def)
next
  case SpaceKey
  with assms show ?thesis
    using timerInv_pause [of w] timerInv_play [of w] by (auto simp: spaceKey_def)
next
  case (SetPreserveCase b)
  with assms show ?thesis by (auto simp: timerInv_def)
next
  case (SetThinkMode b)
  with assms show ?thesis by (auto simp: timerInv_def)
next
  case (SetSpeedSlider v)
  with assms show ?thesis by (auto simp: timerInv_def)
qed

lemma timerInv_run:
  "timerInv w \<Longrightarrow> gated es w \<Longrightarrow> run es w = Inr w' \<Longrightarrow> timerInv w'"
proof (induction es arbitrary: w)
  case Nil
  then show ?case by simp
next
  case (Cons e es)
  from Cons.prems(3) obtain w1 where w1: "step e w = Inr w1" "run es w1 = Inr w'"
    by (auto split: sum.splits)
  from Cons.prems(2) w1(1) have g: "e \<noteq> Play \<or> \<not> isPlaying w" "gated es w1" by simp_all
  from timerInv_step [OF Cons.prems(1) g(1) w1(1)] have "timerInv w1" .
  from Cons.IH [OF this g(2) w1(2)] show ?case .
qed

lemma timerInv_length: "timerInv w \<Longrightarrow> length (intervals w) \<le> 1"
proof -
  assume "timerInv w"
  then have "length (map ident (intervals w)) \<le> 1"
    by (simp add: timerInv_def split: option.splits)
  then show ?thesis by simp
qed

lemma page_invs: "engineInv (page pc tm sp) \<and> timerInv (page pc tm sp)"
  by (simp add: engineInv_def timerInv_def page_def)


subsection \<open>The claims about the engine\<close>

lemma nextStep_at_end:
  assumes "currentIndex w = int (length (encryptedText w)) - 1"
  shows "\<exists>w'. nextStep w = Inr w' \<and> currentIndex w' = currentIndex w
     \<and> encryptedText w' = encryptedText w
     \<and> missionComplete w' = Suc (missionComplete w)"
  using assms by (simp add: nextStep_end showMissionComplete_def pause_fields)

text \<open>
  C2 (the code does otherwise). At the last index \<^verbatim>\<open>nextStep\<close> does not advance the
  cursor, but it calls \<^verbatim>\<open>showMissionComplete\<close> at every call, not once per run: on the
  ciphertext \<^verbatim>\<open>a\<close> with key 3, three calls in a row, in either source file, leave the
  cursor at 0 and have signalled completion twice.
\<close>
theorem nextStep_signals_at_every_call:
  "run [NextStep, NextStep, NextStep] (init ''a'' 3 (page None None None)) =
     Inr \<lparr>encryptedText = ''a'', LoopState.key = 3, currentIndex = 0,
          history =
            [\<lparr>iteration = 0, inputChar = CHR ''a'', Snapshot.key = 3,
              result = \<lparr>isSpecial = False, char = CHR ''x'', originalIndex = 0,
                        newIndex = 23, rawCalculation = Some (- 3)\<rparr>,
              accumulated = ''x''\<rparr>],
          isPlaying = False, timer = None, accumulatedText = ''x'',
          waitingForReveal = False, preserveCaseToggle = None,
          thinkModeToggle = None, speedSlider = None, intervals = [],
          nextTimerId = 1, missionComplete = 2\<rparr>
   \<and> nextSteps_part000 3 (init_part000 ''a'' 3 (page None None None)) =
     Inr \<lparr>encryptedText = ''a'', LoopState.key = 3, currentIndex = 0,
          history =
            [\<lparr>iteration = 0, inputChar = CHR ''a'', Snapshot.key = 3,
              result = \<lparr>isSpecial = False, char = CHR ''x'', originalIndex = 0,
                        newIndex = 23, rawCalculation = Some (- 3)\<rparr>,
              accumulated = ''x''\<rparr>],
          isPlaying = False, timer = None, accumulatedText = ''x'',
          waitingForReveal = False, preserveCaseToggle = None,
          thinkModeToggle = None, speedSlider = None, intervals = [],
          nextTimerId = 1, missionComplete = 2\<rparr>"
  by code_simp

text \<open>
  C3. From the state \<^verbatim>\<open>init\<close> leaves, for every ciphertext, key and page: \<open>n\<close> calls of
  \<^verbatim>\<open>nextStep\<close> succeed and, when \<open>n\<close> is at least the length of the ciphertext, end at
  the last index; \<open>n\<close> calls of \<^verbatim>\<open>prevStep\<close> after them end with the cursor at -1, an
  empty history and an empty accumulated text. And in every state the engine can reach
  that is not at the last index, \<^verbatim>\<open>prevStep\<close> after \<^verbatim>\<open>nextStep\<close> restores history,
  cursor and accumulated text.
\<close>
theorem forward_then_backward:
  "(\<exists>w1 w2. run (replicate n NextStep) (init tx k w) = Inr w1
       \<and> (length tx \<le> n \<longrightarrow> currentIndex w1 = int (length tx) - 1)
       \<and> run (replicate n PrevStep) w1 = Inr w2
       \<and> currentIndex w2 = - 1 \<and> history w2 = [] \<and> accumulatedText w2 = [])
   \<and> (run es (init tx k w) = Inr w3 \<and> currentIndex w3 < int (length (encryptedText w3)) - 1
        \<longrightarrow> (\<exists>w4. nextStep w3 = Inr w4 \<and> history (prevStep w4) = history w3
               \<and> currentIndex (prevStep w4) = currentIndex w3
               \<and> accumulatedText (prevStep w4) = accumulatedText w3))"
proof -
  let ?w0 = "init tx k w"
  have i0: "engineInv ?w0" by (rule engineInv_init)
  have c0: "currentIndex ?w0 = - 1" "encryptedText ?w0 = tx"
    by (simp_all add: init_def Let_def)
  from forward_steps [OF i0, of n] c0 obtain w1 where
    w1: "run (replicate n NextStep) ?w0 = Inr w1" "engineInv w1"
    "currentIndex w1 = min (- 1 + int n) (int (length tx) - 1)" by auto
  from w1(3) have "currentIndex w1 < int n" by simp
  from backward_steps [OF w1(2) this] obtain w2 where
    w2: "run (replicate n PrevStep) w1 = Inr w2" "currentIndex w2 = - 1"
    "history w2 = []" "accumulatedText w2 = []" by blast
  from w1(3) have "length tx \<le> n \<longrightarrow> currentIndex w1 = int (length tx) - 1" by auto
  with w1(1) w2 have first: "\<exists>w1 w2. run (replicate n NextStep) ?w0 = Inr w1
       \<and> (length tx \<le> n \<longrightarrow> currentIndex w1 = int (length tx) - 1)
       \<and> run (replicate n PrevStep) w1 = Inr w2
       \<and> currentIndex w2 = - 1 \<and> history w2 = [] \<and> accumulatedText w2 = []" by blast
  have second: "\<exists>w4. nextStep w3 = Inr w4 \<and> history (prevStep w4) = history w3
               \<and> currentIndex (prevStep w4) = currentIndex w3
               \<and> accumulatedText (prevStep w4) = accumulatedText w3"
    if "run es ?w0 = Inr w3" "currentIndex w3 < int (length (encryptedText w3)) - 1"
  proof -
    from engineInv_run [OF i0, of es] that(1) have "engineInv w3" by simp
    then show ?thesis using that(2) by (rule prevStep_nextStep)
  qed
  from first second show ?thesis by blast
qed

theorem forward_then_backward_witness:
  "length ''ab'' \<le> 2
   \<and> run [] (init ''ab'' 3 (page None None None)) = Inr (init ''ab'' 3 (page None None None))
   \<and> currentIndex (init ''ab'' 3 (page None None None))
       < int (length (encryptedText (init ''ab'' 3 (page None None None)))) - 1
   \<and> (\<exists>w1 w2. run (replicate 2 NextStep) (init ''ab'' 3 (page None None None)) = Inr w1
       \<and> currentIndex w1 = 1 \<and> accumulatedText w1 = ''xy''
       \<and> run (replicate 2 PrevStep) w1 = Inr w2
       \<and> currentIndex w2 = - 1 \<and> history w2 = [] \<and> accumulatedText w2 = [])
   \<and> (\<exists>w4. nextStep (init ''ab'' 3 (page None None None)) = Inr w4
       \<and> history (prevStep w4) = [] \<and> currentIndex (prevStep w4) = - 1
       \<and> accumulatedText (prevStep w4) = [])"
proof -
  let ?w0 = "init ''ab'' 3 (page None None None)"
  have h1: "length ''ab'' \<le> 2" by simp
  have h2: "run [] ?w0 = Inr ?w0" by simp
  have h3: "currentIndex ?w0 < int (length (encryptedText ?w0)) - 1" by code_simp
  have e: "accumulatedText (projr (run (replicate 2 NextStep) ?w0)) = ''xy''" by code_simp
  have s: "history ?w0 = []" "currentIndex ?w0 = - 1" "accumulatedText ?w0 = []"
    by (simp_all add: init_def Let_def)
  from forward_then_backward [of 2 "''ab''" 3 "page None None None" "[]" ?w0] h1 h2 h3 e s
  show ?thesis by (simp del: replicate.simps run.simps) (metis sum.sel(2) h2)
qed

text \<open>
  C4. \<open>history.length = currentIndex + 1\<close> holds in the state the script starts with and in
  the state \<^verbatim>\<open>init\<close> leaves, and after every sequence of events from there: no event
  fails, and the equation holds in the state reached, with the cursor between -1 and the
  last index. The events are all of the engine's entry points, so the sequences include
  \<^verbatim>\<open>nextStep\<close> at the last index and \<^verbatim>\<open>prevStep\<close> at -1.
\<close>
theorem history_length_invariant:
  "int (length (history (page pc tm sp))) = currentIndex (page pc tm sp) + 1
   \<and> int (length (history (init tx k w))) = currentIndex (init tx k w) + 1
   \<and> (\<exists>w'. run es (init tx k w) = Inr w'
         \<and> int (length (history w')) = currentIndex w' + 1
         \<and> - 1 \<le> currentIndex w' \<and> currentIndex w' \<le> int (length (encryptedText w')) - 1)
   \<and> (\<exists>w'. run es (page pc tm sp) = Inr w'
         \<and> int (length (history w')) = currentIndex w' + 1
         \<and> - 1 \<le> currentIndex w' \<and> currentIndex w' \<le> int (length (encryptedText w')) - 1)"
proof -
  have a: "engineInv (page pc tm sp)" using page_invs by simp
  have b: "engineInv (init tx k w)" by (rule engineInv_init)
  from engineInv_run [OF b, of es] engineInv_run [OF a, of es] a b
  show ?thesis unfolding engineInv_def by blast
qed

theorem history_length_invariant_witness:
  "\<exists>w'. run [PrevStep, NextStep, NextStep, NextStep, NextStep, PrevStep]
          (init ''ab'' 3 (page None None None)) = Inr w'
       \<and> int (length (history w')) = currentIndex w' + 1 \<and> currentIndex w' = 0"
proof -
  let ?es = "[PrevStep, NextStep, NextStep, NextStep, NextStep, PrevStep]"
  let ?w0 = "init ''ab'' 3 (page None None None)"
  have e: "currentIndex (projr (run ?es ?w0)) = 0" by code_simp
  from history_length_invariant [of None None None "''ab''" 3 "page None None None" ?es]
  obtain w' where "run ?es ?w0 = Inr w'" "int (length (history w')) = currentIndex w' + 1"
    by blast
  with e show ?thesis by (simp del: run.simps)
qed

text \<open>
  C5 as stated fails: \<^verbatim>\<open>init\<close> of script.js stores 3 for the key 0, and \<^verbatim>\<open>init\<close> of the
  second source file stores the key 30 as it is.
\<close>
theorem init_key_not_clamped_counterexample:
  "LoopState.key (init ''khoor'' 0 (page None None None)) = 3
   \<and> LoopState.key (init ''khoor'' 0 (page None None None)) \<noteq> clamp 0 0 25
   \<and> LoopState.key (init_part000 ''khoor'' 30 (page None None None)) = 30
   \<and> LoopState.key (init_part000 ''khoor'' 30 (page None None None)) \<noteq> clamp 30 0 25"
  by code_simp

text \<open>
  C5, amended. For every integer key below \<open>10^21\<close> in magnitude (where
  \<^verbatim>\<open>parseInt(key, 10)\<close> reads the key back from its decimal digits) and other than 0,
  \<^verbatim>\<open>init\<close> of script.js stores the key clamped into 0..25: a key from 1 to 25 unchanged,
  a negative key as 0, a key above 25 as 25; for every key below \<open>10^21\<close> in magnitude the
  key it stores lies in 0..25. \<^verbatim>\<open>init\<close> of the second source file stores the key it is
  given.
\<close>
theorem init_key:
  "(\<bar>k\<bar> < 10 ^ 21 \<longrightarrow>
      (k \<noteq> 0 \<longrightarrow> LoopState.key (init tx k w) = clamp k 0 25)
      \<and> (1 \<le> k \<and> k \<le> 25 \<longrightarrow> LoopState.key (init tx k w) = k)
      \<and> (k < 0 \<longrightarrow> LoopState.key (init tx k w) = 0)
      \<and> (25 < k \<longrightarrow> LoopState.key (init tx k w) = 25)
      \<and> 0 \<le> LoopState.key (init tx k w) \<and> LoopState.key (init tx k w) \<le> 25)
   \<and> LoopState.key (init_part000 tx k w) = k"
proof -
  have s: "LoopState.key (init tx k w) = clamp (truthyOr k DEFAULT_KEY) 0 25"
    by (simp add: init_def Let_def parseInt10_def)
  have p: "LoopState.key (init_part000 tx k w) = k"
    by (simp add: init_part000_def Let_def)
  show ?thesis
    unfolding s p by (auto simp: clamp_def truthyOr_def DEFAULT_KEY_def)
qed

theorem init_key_witness:
  "\<bar>30 :: int\<bar> < 10 ^ 21 \<and> \<bar>- 4 :: int\<bar> < 10 ^ 21 \<and> \<bar>7 :: int\<bar> < 10 ^ 21
   \<and> (30::int) \<noteq> 0 \<and> (25::int) < 30 \<and> (- 4 :: int) < 0 \<and> (1::int) \<le> 7 \<and> (7::int) \<le> 25
   \<and> LoopState.key (init ''khoor'' 30 (page None None None)) = 25
   \<and> LoopState.key (init ''khoor'' (- 4) (page None None None)) = 0
   \<and> LoopState.key (init ''khoor'' 7 (page None None None)) = 7
   \<and> LoopState.key (init_part000 ''khoor'' 30 (page None None None)) = 30"
  using init_key [of 30 "''khoor''" "page None None None"]
    init_key [of "- 4" "''khoor''" "page None None None"]
    init_key [of 7 "''khoor''" "page None None None"]
  by simp

text \<open>
  C8 as stated fails: \<^verbatim>\<open>play\<close> does not cancel the pending timer. Two calls in a row
  leave two active timers, in either source file, and \<^verbatim>\<open>pause\<close> then cancels only the
  second.
\<close>
theorem play_twice_two_timers_counterexample:
  "intervals (play (play (init ''khoor'' 3 (page None None None)))) =
     [\<lparr>ident = 1, delay = 1000, captured = None\<rparr>, \<lparr>ident = 2, delay = 1000, captured = None\<rparr>]
   \<and> \<not> length (intervals (play (play (init ''khoor'' 3 (page None None None))))) \<le> 1
   \<and> intervals (pause (play (play (init ''khoor'' 3 (page None None None))))) =
     [\<lparr>ident = 1, delay = 1000, captured = None\<rparr>]
   \<and> intervals (play_part000 (play_part000 (init_part000 ''khoor'' 3 (page None None None)))) =
     [\<lparr>ident = 1, delay = 1000, captured = None\<rparr>, \<lparr>ident = 2, delay = 1000, captured = None\<rparr>]"
  by code_simp

text \<open>
  C8, amended. From the state the script starts with, after every sequence of events in
  which each call of \<^verbatim>\<open>play\<close> comes while the engine is not playing, at most one timer is
  active, and none when the engine is not playing. Where at most the timer the state
  records is active, no timer is active after \<^verbatim>\<open>init\<close>, after \<^verbatim>\<open>prevStep\<close> and after
  \<^verbatim>\<open>pause\<close>: these cancel the pending timer.
\<close>
theorem one_timer_while_play_is_gated:
  "(gated es (page pc tm sp) \<longrightarrow>
      (\<exists>w'. run es (page pc tm sp) = Inr w' \<and> length (intervals w') \<le> 1
         \<and> (\<not> isPlaying w' \<longrightarrow> intervals w' = [])))
   \<and> (timerInv w \<longrightarrow>
        intervals (init tx k w) = [] \<and> intervals (prevStep w) = []
        \<and> intervals (pause w) = [])"
proof -
  have first: "\<exists>w'. run es (page pc tm sp) = Inr w' \<and> length (intervals w') \<le> 1
         \<and> (\<not> isPlaying w' \<longrightarrow> intervals w' = [])" if g: "gated es (page pc tm sp)"
  proof -
    from page_invs have e: "engineInv (page pc tm sp)" and t: "timerInv (page pc tm sp)"
      by simp_all
    from engineInv_run [OF e, of es] obtain w' where w': "run es (page pc tm sp) = Inr w'"
      by blast
    from timerInv_run [OF t g w'] have i: "timerInv w'" .
    then have "\<not> isPlaying w' \<longrightarrow> intervals w' = []" by (auto simp: timerInv_def)
    with w' timerInv_length [OF i] show ?thesis by blast
  qed
  have second: "intervals (init tx k w) = [] \<and> intervals (prevStep w) = []
        \<and> intervals (pause w) = []" if "timerInv w"
    using that by (simp add: timerInv_init timerInv_prevStep pause_intervals)
  from first second show ?thesis by blast
qed

theorem one_timer_while_play_is_gated_witness:
  "gated [Init ''khoor'' 3, Play, SpaceKey, SpaceKey, Tick 2, NextStep, Pause, Play, PrevStep]
      (page None None None)
   \<and> timerInv (play (init ''khoor'' 3 (page None None None)))
   \<and> intervals (play (init ''khoor'' 3 (page None None None))) =
       [\<lparr>ident = 1, delay = 1000, captured = None\<rparr>]
   \<and> intervals (prevStep (play (init ''khoor'' 3 (page None None None)))) = []
   \<and> (\<exists>w'. run [Init ''khoor'' 3, Play, SpaceKey, SpaceKey, Tick 2, NextStep, Pause, Play, PrevStep]
          (page None None None) = Inr w' \<and> length (intervals w') \<le> 1)"
proof -
  let ?es = "[Init ''khoor'' 3, Play, SpaceKey, SpaceKey, Tick 2, NextStep, Pause, Play, PrevStep]"
  let ?w = "play (init ''khoor'' 3 (page None None None))"
  have g: "gated ?es (page None None None)" by code_simp
  have t: "timerInv ?w" by code_simp
  have i: "intervals ?w = [\<lparr>ident = 1, delay = 1000, captured = None\<rparr>]" by code_simp
  note inst = one_timer_while_play_is_gated [where es = ?es and pc = None and tm = None
      and sp = None and w = ?w and tx = "''khoor''" and k = 3]
  from inst g have "\<exists>w'. run ?es (page None None None) = Inr w' \<and> length (intervals w') \<le> 1"
    by blast
  moreover from inst t have "intervals (prevStep ?w) = []" by blast
  ultimately show ?thesis using g t i by blast
qed

section \<open>Verification of the CSV export\<close>

subsection \<open>Rows read back\<close>

lemma COMMA_DQ: "COMMA \<noteq> DQ"
  by (simp add: COMMA_def DQ_def)

lemma readQuoted_other:
  "c \<noteq> DQ \<Longrightarrow> xs \<noteq> [] \<Longrightarrow>
     readQuoted (c # xs) = map_option (\<lambda>(f, rest). (c # f, rest)) (readQuoted xs)"
  by (cases xs) simp_all

lemma readQuoted_escaped:
  assumes "rest = [] \<or> hd rest \<noteq> DQ"
  shows "readQuoted (replaceAll DQ [DQ, DQ] s @ DQ # rest) = Some (s, rest)"
proof (induction s)
  case Nil
  from assms show ?case by (cases rest) (simp_all add: replaceAll_def)
next
  case (Cons c cs)
  show ?case
  proof (cases "c = DQ")
    case True
    with Cons show ?thesis by (simp add: replaceAll_def)
  next
    case False
    have "replaceAll DQ [DQ, DQ] (c # cs) @ DQ # rest
        = c # (replaceAll DQ [DQ, DQ] cs @ DQ # rest)"
      using False by (simp add: replaceAll_def)
    with False Cons show ?thesis by (simp add: readQuoted_other)
  qed
qed

lemma replaceAll_absent: "c \<notin> set s \<Longrightarrow> replaceAll c r s = s"
  by (induction s) (auto simp: replaceAll_def)

lemma readField_quoted:
  assumes "rest = [] \<or> hd rest \<noteq> DQ"
  shows "readField ([DQ] @ replaceAll DQ [DQ, DQ] s @ [DQ] @ rest) = Some (s, rest)"
  using readQuoted_escaped [OF assms, of s] by (simp add: readField_def)

lemma takeWhile_field:
  "COMMA \<notin> set f \<Longrightarrow> rest = [] \<or> hd rest = COMMA \<Longrightarrow>
     takeWhile (\<lambda>x. x \<noteq> COMMA) (f @ rest) = f
     \<and> dropWhile (\<lambda>x. x \<noteq> COMMA) (f @ rest) = rest"
proof (induction f)
  case Nil
  then show ?case by (cases rest) auto
next
  case (Cons a f)
  then show ?case by auto
qed

lemma readField_plain:
  assumes "DQ \<notin> set f" "COMMA \<notin> set f" "rest = [] \<or> hd rest = COMMA"
  shows "readField (f @ rest) = Some (f, rest)"
proof (cases "f @ rest")
  case Nil
  then show ?thesis by (simp add: readField_def)
next
  case (Cons c cs)
  have "c \<noteq> DQ"
  proof (cases f)
    case Nil
    with Cons assms(3) show ?thesis using COMMA_DQ by auto
  next
    case (Cons a as)
    with \<open>f @ rest = c # cs\<close> assms(1) show ?thesis by auto
  qed
  moreover have "readField (f @ rest) =
      (if c = DQ then readQuoted cs
       else
         (let g = takeWhile (\<lambda>x. x \<noteq> COMMA) (f @ rest)
          in if DQ \<in> set g then None
             else Some (g, dropWhile (\<lambda>x. x \<noteq> COMMA) (f @ rest))))"
    by (simp only: readField_def Cons list.case)
  ultimately show ?thesis
    using takeWhile_field [OF assms(2,3)] assms(1) by (simp add: Let_def)
qed

lemma readFields_last:
  "readField s = Some (f, []) \<Longrightarrow> readFields (Suc n) s = Some [f]"
  by simp

lemma readFields_more:
  "readField s = Some (f, COMMA # rest) \<Longrightarrow>
     readFields (Suc n) s = map_option ((#) f) (readFields n rest)"
  by simp

lemma readFields_mono:
  "readFields n s = Some fs \<Longrightarrow> n \<le> m \<Longrightarrow> readFields m s = Some fs"
proof (induction n s arbitrary: m fs rule: readFields.induct)
  case (1 s)
  then show ?case by simp
next
  case (2 n s)
  from "2.prems"(2) obtain m' where m: "m = Suc m'" "n \<le> m'" by (cases m) auto
  show ?case
  proof (cases "readField s")
    case None
    with "2.prems"(1) show ?thesis by simp
  next
    case (Some p)
    obtain f rest where p: "p = (f, rest)" by (cases p)
    show ?thesis
    proof (cases rest)
      case Nil
      with Some p "2.prems"(1) m show ?thesis by simp
    next
      case (Cons c cs)
      show ?thesis
      proof (cases "c = COMMA")
        case True
        with Some p Cons "2.prems"(1) obtain gs where
          gs: "readFields n cs = Some gs" "fs = f # gs" by auto
        from "2.IH" [OF Some p [symmetric] Cons True gs(1) m(2)]
        have "readFields m' cs = Some gs" .
        with Some p Cons True gs(2) m(1) show ?thesis by simp
      next
        case False
        with Some p Cons "2.prems"(1) show ?thesis by simp
      qed
    qed
  qed
qed

lemma digitChar_clean: "n < 10 \<Longrightarrow> digitChar n \<in> set DIGITS"
  unfolding digitChar_def by (rule nth_mem) (simp add: DIGITS_def)

lemma showNat_small: "n < 10 \<Longrightarrow> showNat n = [digitChar n]"
  by (subst showNat.simps) (simp (no_asm_simp) only: if_True)

lemma showNat_large:
  "\<not> n < 10 \<Longrightarrow> showNat n = showNat (n div 10) @ [digitChar (n mod 10)]"
  by (subst showNat.simps) (simp (no_asm_simp) only: if_False)

lemma showNat_digits: "set (showNat n) \<subseteq> set DIGITS"
proof (induction n rule: showNat.induct)
  case (1 n)
  show ?case
  proof (cases "n < 10")
    case True
    with digitChar_clean [OF True] show ?thesis by (simp add: showNat_small)
  next
    case False
    have m: "n mod 10 < 10" by simp
    from "1.IH" [OF False] digitChar_clean [OF m] show ?thesis
      by (simp add: showNat_large [OF False])
  qed
qed

lemma showInt_clean: "DQ \<notin> set (showInt k) \<and> COMMA \<notin> set (showInt k)"
proof -
  have "set (showInt k) \<subseteq> insert CHR ''-'' (set DIGITS)"
    using showNat_digits [of "nat k"] showNat_digits [of "nat (- k)"]
    by (auto simp: showInt_def)
  moreover have "DQ \<notin> insert CHR ''-'' (set DIGITS)" "COMMA \<notin> insert CHR ''-'' (set DIGITS)"
    by (simp_all add: DQ_def COMMA_def DIGITS_def)
  ultimately show ?thesis by blast
qed


lemma readFields_plain:
  assumes "DQ \<notin> set f" "COMMA \<notin> set f"
  shows "readFields (Suc n) (f @ COMMA # rest) = map_option ((#) f) (readFields n rest)"
    and "readFields (Suc n) f = Some [f]"
proof -
  have "readField (f @ COMMA # rest) = Some (f, COMMA # rest)"
    using assms by (intro readField_plain) simp_all
  then show "readFields (Suc n) (f @ COMMA # rest) = map_option ((#) f) (readFields n rest)"
    by (rule readFields_more)
  have "readField (f @ []) = Some (f, [])"
    using assms by (intro readField_plain) simp_all
  then show "readFields (Suc n) f = Some [f]" by simp
qed

lemma readFields_quoted:
  "readFields (Suc n) (DQ # replaceAll DQ [DQ, DQ] s @ DQ # COMMA # rest)
     = map_option ((#) s) (readFields n rest)"
  "readFields (Suc n) (DQ # replaceAll DQ [DQ, DQ] s @ [DQ]) = Some [s]"
proof -
  have "readField ([DQ] @ replaceAll DQ [DQ, DQ] s @ [DQ] @ COMMA # rest)
      = Some (s, COMMA # rest)"
    using COMMA_DQ by (intro readField_quoted) simp
  then show "readFields (Suc n) (DQ # replaceAll DQ [DQ, DQ] s @ DQ # COMMA # rest)
     = map_option ((#) s) (readFields n rest)" by simp
  have "readField ([DQ] @ replaceAll DQ [DQ, DQ] s @ [DQ] @ []) = Some (s, [])"
    by (intro readField_quoted) simp
  then show "readFields (Suc n) (DQ # replaceAll DQ [DQ, DQ] s @ [DQ]) = Some [s]" by simp
qed

lemma readFields_quoted_raw:
  assumes "DQ \<notin> set s"
  shows "readFields (Suc n) (DQ # s @ DQ # COMMA # rest) = map_option ((#) s) (readFields n rest)"
    and "readFields (Suc n) (DQ # s @ [DQ]) = Some [s]"
  using readFields_quoted(1) [of n s rest] readFields_quoted(2) [of n s]
    replaceAll_absent [OF assms, of "[DQ, DQ]"]
  by simp_all

lemma readRow_part000:
  assumes "DQ \<notin> set (timestamp r)" "COMMA \<notin> set (timestamp r)" "DQ \<notin> set (studentId r)"
  shows "readRow (csvRow_part000 r) =
     Some [timestamp r, studentId r, encrypted r, showInt (Attempt.key r), finalDecrypted r]"
proof -
  let ?e = "replaceAll DQ [DQ, DQ] (encrypted r)"
  let ?d = "replaceAll DQ [DQ, DQ] (finalDecrypted r)"
  let ?k = "showInt (Attempt.key r)"
  let ?r4 = "DQ # ?d @ [DQ]"
  let ?r3 = "?k @ COMMA # ?r4"
  let ?r2 = "DQ # ?e @ DQ # COMMA # ?r3"
  let ?r1 = "DQ # studentId r @ DQ # COMMA # ?r2"
  let ?row = "timestamp r @ COMMA # ?r1"
  have row: "csvRow_part000 r = ?row" by (simp add: csvRow_part000_def Let_def)
  have "readFields 1 ?r4 = Some [finalDecrypted r]"
    using readFields_quoted(2) [of 0] by simp
  then have "readFields 2 ?r3 = Some [?k, finalDecrypted r]"
    using readFields_plain(1) [of ?k 1 ?r4] showInt_clean [of "Attempt.key r"]
    by (simp add: numeral_2_eq_2)
  then have "readFields 3 ?r2 = Some [encrypted r, ?k, finalDecrypted r]"
    using readFields_quoted(1) [of 2 "encrypted r" ?r3] by (simp add: numeral_3_eq_3 numeral_2_eq_2)
  then have "readFields 4 ?r1 = Some [studentId r, encrypted r, ?k, finalDecrypted r]"
    using readFields_quoted_raw(1) [OF assms(3), of 3 ?r2]
    by (simp add: eval_nat_numeral)
  then have "readFields 5 ?row =
      Some [timestamp r, studentId r, encrypted r, ?k, finalDecrypted r]"
    using readFields_plain(1) [OF assms(1,2), of 4 ?r1] by (simp add: eval_nat_numeral)
  moreover have "5 \<le> Suc (length ?row)" by simp
  ultimately have "readFields (Suc (length ?row)) ?row =
      Some [timestamp r, studentId r, encrypted r, ?k, finalDecrypted r]"
    by (rule readFields_mono)
  then show ?thesis unfolding readRow_def row .
qed

lemma readRow_script:
  assumes "DQ \<notin> set (timestamp r)" "COMMA \<notin> set (timestamp r)"
    "DQ \<notin> set (studentId r)" "COMMA \<notin> set (studentId r)"
    "DQ \<notin> set (encrypted r)" "DQ \<notin> set (finalDecrypted r)"
  shows "readRow (join [COMMA] (csvRow J r)) =
     Some [timestamp r, studentId r, encrypted r, showInt (Attempt.key r), finalDecrypted r,
           J (Attempt.history r)]"
proof -
  let ?h = "replaceAll DQ [DQ, DQ] (J (Attempt.history r))"
  let ?k = "showInt (Attempt.key r)"
  let ?r5 = "DQ # ?h @ [DQ]"
  let ?r4 = "DQ # finalDecrypted r @ DQ # COMMA # ?r5"
  let ?r3 = "?k @ COMMA # ?r4"
  let ?r2 = "DQ # encrypted r @ DQ # COMMA # ?r3"
  let ?r1 = "studentId r @ COMMA # ?r2"
  let ?row = "timestamp r @ COMMA # ?r1"
  have row: "join [COMMA] (csvRow J r) = ?row" by (simp add: csvRow_def)
  have "readFields 1 ?r5 = Some [J (Attempt.history r)]"
    using readFields_quoted(2) [of 0] by simp
  then have "readFields 2 ?r4 = Some [finalDecrypted r, J (Attempt.history r)]"
    using readFields_quoted_raw(1) [OF assms(6), of 1 ?r5] by (simp add: eval_nat_numeral)
  then have "readFields 3 ?r3 = Some [?k, finalDecrypted r, J (Attempt.history r)]"
    using readFields_plain(1) [of ?k 2 ?r4] showInt_clean [of "Attempt.key r"]
    by (simp add: eval_nat_numeral)
  then have "readFields 4 ?r2 =
      Some [encrypted r, ?k, finalDecrypted r, J (Attempt.history r)]"
    using readFields_quoted_raw(1) [OF assms(5), of 3 ?r3] by (simp add: eval_nat_numeral)
  then have "readFields 5 ?r1 =
      Some [studentId r, encrypted r, ?k, finalDecrypted r, J (Attempt.history r)]"
    using readFields_plain(1) [OF assms(3,4), of 4 ?r2] by (simp add: eval_nat_numeral)
  then have "readFields 6 ?row =
      Some [timestamp r, studentId r, encrypted r, ?k, finalDecrypted r,
            J (Attempt.history r)]"
    using readFields_plain(1) [OF assms(1,2), of 5 ?r1] by (simp add: eval_nat_numeral)
  moreover have "6 \<le> Suc (length ?row)" by simp
  ultimately have "readFields (Suc (length ?row)) ?row =
      Some [timestamp r, studentId r, encrypted r, ?k, finalDecrypted r,
            J (Attempt.history r)]"
    by (rule readFields_mono)
  then show ?thesis unfolding readRow_def row .
qed


text \<open>
  C9 as stated fails for script.js: it puts ciphertext and final output between double
  quotes without doubling the double quotes inside, and its rows have a sixth field. The
  row of an attempt with the ciphertext \<^verbatim>\<open>a"b\<close> does not read back; with the double quote
  doubled it would.
\<close>
theorem script_row_quote_not_doubled_counterexample:
  "join [COMMA]
     (csvRow id \<lparr>timestamp = ''t'', studentId = ''s'', encrypted = [CHR ''a'', DQ, CHR ''b''],
                 Attempt.key = 3, finalDecrypted = ''x'', Attempt.history = ''[]''\<rparr>)
     = ''t,s,'' @ [DQ] @ ''a'' @ [DQ] @ ''b'' @ [DQ] @ '',3,'' @ [DQ] @ ''x'' @ [DQ] @ '',''
         @ [DQ] @ ''[]'' @ [DQ]
   \<and> readRow (join [COMMA]
     (csvRow id \<lparr>timestamp = ''t'', studentId = ''s'', encrypted = [CHR ''a'', DQ, CHR ''b''],
                 Attempt.key = 3, finalDecrypted = ''x'', Attempt.history = ''[]''\<rparr>))
     = None
   \<and> readRow (''t,s,'' @ [DQ] @ ''a'' @ [DQ, DQ] @ ''b'' @ [DQ] @ '',3,'' @ [DQ] @ ''x'' @ [DQ])
     = Some [''t'', ''s'', [CHR ''a'', DQ, CHR ''b''], ''3'', ''x'']"
  by code_simp

text \<open>
  C9, amended. A data row of the second source file reads back as the five fields
  timestamp, student id, ciphertext, key and final output, whatever characters ciphertext
  and final output hold (both are written between double quotes with every double quote
  inside doubled), for a timestamp without comma or double quote and a student id without
  double quote. A data row of script.js reads back as these five fields and the history
  JSON as a sixth, for a ciphertext and a final output without double quote and a timestamp
  and a student id without comma or double quote. Either export is the header line and
  the data rows, one per attempt, joined by newlines.
\<close>
theorem csv_rows_read_back:
  "(DQ \<notin> set (timestamp r) \<and> COMMA \<notin> set (timestamp r) \<and> DQ \<notin> set (studentId r) \<longrightarrow>
      readRow (csvRow_part000 r) =
        Some [timestamp r, studentId r, encrypted r, showInt (Attempt.key r), finalDecrypted r])
   \<and> (DQ \<notin> set (timestamp r) \<and> COMMA \<notin> set (timestamp r)
       \<and> DQ \<notin> set (studentId r) \<and> COMMA \<notin> set (studentId r)
       \<and> DQ \<notin> set (encrypted r) \<and> DQ \<notin> set (finalDecrypted r) \<longrightarrow>
      readRow (join [COMMA] (csvRow J r)) =
        Some [timestamp r, studentId r, encrypted r, showInt (Attempt.key r), finalDecrypted r,
              J (Attempt.history r)])
   \<and> (data \<noteq> [] \<longrightarrow>
        exportClassCSV_part000 data =
          Some (join [NEWLINE] (join [COMMA] csvHeader_part000 # map csvRow_part000 data))
        \<and> exportClassCSV J data =
          Some (join [NEWLINE] (join [COMMA] csvHeader # map (join [COMMA] \<circ> csvRow J) data)))"
proof -
  have "data \<noteq> [] \<longrightarrow>
        exportClassCSV_part000 data =
          Some (join [NEWLINE] (join [COMMA] csvHeader_part000 # map csvRow_part000 data))
        \<and> exportClassCSV J data =
          Some (join [NEWLINE] (join [COMMA] csvHeader # map (join [COMMA] \<circ> csvRow J) data))"
    by (simp add: exportClassCSV_part000_def exportClassCSV_def Let_def)
  then show ?thesis using readRow_part000 [of r] readRow_script [of r J] by blast
qed

theorem csv_rows_read_back_witness:
  "DQ \<notin> set ''2024-05-01T10:00:00.000Z'' \<and> COMMA \<notin> set ''2024-05-01T10:00:00.000Z''
   \<and> DQ \<notin> set ''agent_007'' \<and> COMMA \<notin> set ''agent_007''
   \<and> DQ \<notin> set ''khoor, zruog'' \<and> DQ \<notin> set ''hello, world''
   \<and> readRow (csvRow_part000
        \<lparr>timestamp = ''2024-05-01T10:00:00.000Z'', studentId = ''agent_007'',
         encrypted = [CHR ''a'', DQ, CHR '','', CHR ''b''], Attempt.key = 3,
         finalDecrypted = [CHR ''x'', DQ, CHR '','', CHR ''y''], Attempt.history = ''[]''\<rparr>)
       = Some [''2024-05-01T10:00:00.000Z'', ''agent_007'', [CHR ''a'', DQ, CHR '','', CHR ''b''],
               ''3'', [CHR ''x'', DQ, CHR '','', CHR ''y'']]
   \<and> readRow (join [COMMA] (csvRow id
        \<lparr>timestamp = ''2024-05-01T10:00:00.000Z'', studentId = ''agent_007'',
         encrypted = ''khoor, zruog'', Attempt.key = 3,
         finalDecrypted = ''hello, world'',
         Attempt.history = [CHR ''['', DQ, CHR ''h'', DQ, CHR '']'']\<rparr>))
       = Some [''2024-05-01T10:00:00.000Z'', ''agent_007'', ''khoor, zruog'', ''3'',
               ''hello, world'', [CHR ''['', DQ, CHR ''h'', DQ, CHR '']'']]
   \<and> exportClassCSV_part000
        [\<lparr>timestamp = ''2024-05-01T10:00:00.000Z'', studentId = ''agent_007'',
          encrypted = ''khoor, zruog'', Attempt.key = 3,
          finalDecrypted = ''hello, world'',
          Attempt.history = [CHR ''['', DQ, CHR ''h'', DQ, CHR '']'']\<rparr>]
       = Some (''Timestamp,Student ID,Encrypted Text,Key,Decrypted Result'' @ [NEWLINE]
           @ ''2024-05-01T10:00:00.000Z,'' @ [DQ] @ ''agent_007'' @ [DQ] @ '','' @ [DQ]
           @ ''khoor, zruog'' @ [DQ] @ '',3,'' @ [DQ] @ ''hello, world'' @ [DQ])"
proof -
  let ?a = "\<lparr>timestamp = ''2024-05-01T10:00:00.000Z'', studentId = ''agent_007'',
         encrypted = [CHR ''a'', DQ, CHR '','', CHR ''b''], Attempt.key = 3,
         finalDecrypted = [CHR ''x'', DQ, CHR '','', CHR ''y''], Attempt.history = ''[]''\<rparr>"
  let ?b = "\<lparr>timestamp = ''2024-05-01T10:00:00.000Z'', studentId = ''agent_007'',
         encrypted = ''khoor, zruog'', Attempt.key = 3,
         finalDecrypted = ''hello, world'',
         Attempt.history = [CHR ''['', DQ, CHR ''h'', DQ, CHR '']'']\<rparr>"
  have c: "DQ \<notin> set ''2024-05-01T10:00:00.000Z''" "COMMA \<notin> set ''2024-05-01T10:00:00.000Z''"
    "DQ \<notin> set ''agent_007''" "COMMA \<notin> set ''agent_007''"
    "DQ \<notin> set ''khoor, zruog''" "DQ \<notin> set ''hello, world''"
    by (simp_all add: DQ_def COMMA_def)
  have k: "showInt 3 = ''3''" by code_simp
  have n: "[?b] \<noteq> []" by simp
  have r: "join [NEWLINE] (join [COMMA] csvHeader_part000 # map csvRow_part000 [?b])
      = ''Timestamp,Student ID,Encrypted Text,Key,Decrypted Result'' @ [NEWLINE]
           @ ''2024-05-01T10:00:00.000Z,'' @ [DQ] @ ''agent_007'' @ [DQ] @ '','' @ [DQ]
           @ ''khoor, zruog'' @ [DQ] @ '',3,'' @ [DQ] @ ''hello, world'' @ [DQ]"
    by code_simp
  from csv_rows_read_back [of ?a id "[?b]"] c k
  have a: "readRow (csvRow_part000 ?a) =
      Some [''2024-05-01T10:00:00.000Z'', ''agent_007'', [CHR ''a'', DQ, CHR '','', CHR ''b''],
            ''3'', [CHR ''x'', DQ, CHR '','', CHR ''y'']]" by simp
  from csv_rows_read_back [of ?b id "[?b]"] c k
  have b: "readRow (join [COMMA] (csvRow id ?b)) =
      Some [''2024-05-01T10:00:00.000Z'', ''agent_007'', ''khoor, zruog'', ''3'',
            ''hello, world'', [CHR ''['', DQ, CHR ''h'', DQ, CHR '']'']]" by simp
  from csv_rows_read_back [of ?b id "[?b]"] n
  have "exportClassCSV_part000 [?b] =
      Some (join [NEWLINE] (join [COMMA] csvHeader_part000 # map csvRow_part000 [?b]))"
    by blast
  with r have e: "exportClassCSV_part000 [?b] = Some (''Timestamp,Student ID,Encrypted Text,Key,Decrypted Result'' @ [NEWLINE]
           @ ''2024-05-01T10:00:00.000Z,'' @ [DQ] @ ''agent_007'' @ [DQ] @ '','' @ [DQ]
           @ ''khoor, zruog'' @ [DQ] @ '',3,'' @ [DQ] @ ''hello, world'' @ [DQ])"
    by (simp only:)
  from a b c e show ?thesis by blast
qed

end
